theory Spec2Isabelle
  imports Main "HOL-Library.Word"
begin

unbundle bit_operations_syntax

section \<open>The relay server (backend): presence, store-and-forward, routing\<close>

text \<open>
  The backend keeps four process-wide maps; the two the relay uses are
  \<^verbatim>\<open>socketsByUser\<close> (principal id to live socket) and \<^verbatim>\<open>undeliveredMessages\<close>
  (principal id to an array of \<^verbatim>\<open>{ event, payload }\<close>). The friend sets live in the user
  objects that every socket references through \<^verbatim>\<open>socket.user\<close>. What a socket is asked to
  emit is recorded, in order, in the field \<open>emitted\<close>.
\<close>

type_synonym user_id = string

datatype jsvalue =
    JUndefined
  | JString string
  | JObject "(string \<times> jsvalue) list"

type_synonym jsobject = "(string \<times> jsvalue) list"

record socket =
  sid :: nat
  user :: user_id

record message =
  event :: string
  payload :: jsvalue

record relay =
  friends :: "user_id \<Rightarrow> user_id set"
  socketsByUser :: "user_id \<rightharpoonup> socket"
  undeliveredMessages :: "user_id \<rightharpoonup> message list"
  emitted :: "(socket \<times> string \<times> jsvalue) list"

text \<open>Property read \<^verbatim>\<open>obj.k\<close>: \<^verbatim>\<open>undefined\<close> when the key is absent.\<close>

definition obj_get :: "jsobject \<Rightarrow> string \<Rightarrow> jsvalue" where
  "obj_get obj k = (case map_of obj k of None \<Rightarrow> JUndefined | Some v \<Rightarrow> v)"

text \<open>Property write: an existing key keeps its place, a new key goes last.\<close>

definition obj_put :: "jsobject \<Rightarrow> string \<Rightarrow> jsvalue \<Rightarrow> jsobject" where
  "obj_put obj k v =
     (if k \<in> fst ` set obj
      then map (\<lambda>(k', v'). if k' = k then (k', v) else (k', v')) obj
      else obj @ [(k, v)])"

text \<open>Object spread \<^verbatim>\<open>{ ...base, ...ext }\<close>: the keys of \<open>ext\<close> override.\<close>

definition spread :: "jsobject \<Rightarrow> jsobject \<Rightarrow> jsobject" where
  "spread base ext = foldl (\<lambda>obj (k, v). obj_put obj k v) base ext"

text \<open>\<^verbatim>\<open>socket.user.friends.has(x)\<close>: the friend sets hold principal ids (strings).\<close>

definition friends_has :: "user_id set \<Rightarrow> jsvalue \<Rightarrow> bool" where
  "friends_has fs v = (case v of JString t \<Rightarrow> t \<in> fs | _ \<Rightarrow> False)"

text \<open>\<^verbatim>\<open>socket.emit(event, payload)\<close>\<close>

definition emit :: "socket \<Rightarrow> string \<Rightarrow> jsvalue \<Rightarrow> relay \<Rightarrow> relay" where
  "emit sock ev p s = s\<lparr>emitted := emitted s @ [(sock, ev, p)]\<rparr>"

text \<open>\<^verbatim>\<open>undeliveredMessages.get(userId) || []\<close>\<close>

definition bucket_of :: "relay \<Rightarrow> user_id \<Rightarrow> message list" where
  "bucket_of s userId = (case undeliveredMessages s userId of None \<Rightarrow> [] | Some b \<Rightarrow> b)"

text \<open>
  \<^verbatim>\<open>
  function sendOrStore(userId, event, payload) {
    const targetSocket = socketsByUser.get(userId);
    if (targetSocket) { targetSocket.emit(event, payload); return; }
    const bucket = undeliveredMessages.get(userId) || [];
    bucket.push({ event, payload });
    undeliveredMessages.set(userId, bucket);
  }
  \<close>
\<close>

definition sendOrStore :: "user_id \<Rightarrow> string \<Rightarrow> jsvalue \<Rightarrow> relay \<Rightarrow> relay" where
  "sendOrStore userId ev p s =
     (case socketsByUser s userId of
        Some targetSocket \<Rightarrow> emit targetSocket ev p s
      | None \<Rightarrow>
          s\<lparr>undeliveredMessages :=
              (undeliveredMessages s)(userId \<mapsto> bucket_of s userId @ [\<lparr>event = ev, payload = p\<rparr>])\<rparr>)"

text \<open>
  The body of \<^verbatim>\<open>io.on('connection', (socket) => ...)\<close> before the handlers are
  installed: register the socket, flush the pending array in order, reset it.
\<close>

definition connection :: "socket \<Rightarrow> relay \<Rightarrow> relay" where
  "connection sock s =
     (let s1 = s\<lparr>socketsByUser := (socketsByUser s)(user sock \<mapsto> sock)\<rparr>;
          pending = bucket_of s1 (user sock);
          s2 = foldl (\<lambda>st m. emit sock (event m) (payload m) st) s1 pending
      in s2\<lparr>undeliveredMessages := (undeliveredMessages s2)(user sock \<mapsto> [])\<rparr>)"

text \<open>
  \<^verbatim>\<open>socket.on('dh-public', ({ toUserId, publicKey }) => ...)\<close>; the argument is the
  object the client sent.
\<close>

definition on_dh_public :: "socket \<Rightarrow> jsobject \<Rightarrow> relay \<Rightarrow> relay" where
  "on_dh_public sock arg s =
     (let toUserId = obj_get arg ''toUserId''; publicKey = obj_get arg ''publicKey'' in
      if \<not> friends_has (friends s (user sock)) toUserId then s
      else (case toUserId of
              JString t \<Rightarrow>
                sendOrStore t ''dh-public''
                  (JObject [(''from'', JString (user sock)), (''publicKey'', publicKey)]) s
            | _ \<Rightarrow> s))"

text \<open>\<^verbatim>\<open>socket.on('secure-message', (payload) => ...)\<close>\<close>

definition on_secure_message :: "socket \<Rightarrow> jsobject \<Rightarrow> relay \<Rightarrow> relay" where
  "on_secure_message sock arg s =
     (let toUserId = obj_get arg ''toUserId'' in
      if \<not> friends_has (friends s (user sock)) toUserId then s
      else (case toUserId of
              JString t \<Rightarrow>
                sendOrStore t ''secure-message''
                  (JObject (spread [(''from'', JString (user sock))] arg)) s
            | _ \<Rightarrow> s))"

text \<open>\<^verbatim>\<open>socket.on('disconnect', () => { socketsByUser.delete(socket.user.id); })\<close>\<close>

definition on_disconnect :: "socket \<Rightarrow> relay \<Rightarrow> relay" where
  "on_disconnect sock s = s\<lparr>socketsByUser := (socketsByUser s)(user sock := None)\<rparr>"

text \<open>
  What the relay reacts to: a connection, the two relayed events arriving on a socket, and
  a disconnect. Each handler runs to completion before the next input is taken.
\<close>

datatype relay_input =
    Connection socket
  | OnDhPublic socket jsobject
  | OnSecureMessage socket jsobject
  | OnDisconnect socket

fun relay_step :: "relay_input \<Rightarrow> relay \<Rightarrow> relay" where
  "relay_step (Connection sock) s = connection sock s"
| "relay_step (OnDhPublic sock arg) s = on_dh_public sock arg s"
| "relay_step (OnSecureMessage sock arg) s = on_secure_message sock arg s"
| "relay_step (OnDisconnect sock) s = on_disconnect sock s"

definition relay_run :: "relay_input list \<Rightarrow> relay \<Rightarrow> relay" where
  "relay_run inputs s = foldl (\<lambda>st i. relay_step i st) s inputs"

text \<open>
  The call of \<^verbatim>\<open>sendOrStore\<close> that an input leads to, if any, given the friend sets
  (which no input changes).
\<close>

fun routed :: "(user_id \<Rightarrow> user_id set) \<Rightarrow> relay_input \<Rightarrow> (user_id \<times> string \<times> jsvalue) list" where
  "routed fs (OnDhPublic sock arg) =
     (case obj_get arg ''toUserId'' of
        JString t \<Rightarrow>
          if t \<in> fs (user sock)
          then [(t, ''dh-public'',
                 JObject [(''from'', JString (user sock)), (''publicKey'', obj_get arg ''publicKey'')])]
          else []
      | _ \<Rightarrow> [])"
| "routed fs (OnSecureMessage sock arg) =
     (case obj_get arg ''toUserId'' of
        JString t \<Rightarrow>
          if t \<in> fs (user sock)
          then [(t, ''secure-message'', JObject (spread [(''from'', JString (user sock))] arg))]
          else []
      | _ \<Rightarrow> [])"
| "routed fs (Connection sock) = []"
| "routed fs (OnDisconnect sock) = []"

text \<open>Whether an input is a connection of the principal \<open>u\<close>.\<close>

definition is_connection_of :: "user_id \<Rightarrow> relay_input \<Rightarrow> bool" where
  "is_connection_of u i = (case i of Connection sock \<Rightarrow> user sock = u | _ \<Rightarrow> False)"

text \<open>Whether an input is a connection or a disconnect of the principal \<open>u\<close>.\<close>

definition touches_presence_of :: "user_id \<Rightarrow> relay_input \<Rightarrow> bool" where
  "touches_presence_of u i =
     (case i of Connection sock \<Rightarrow> user sock = u | OnDisconnect sock \<Rightarrow> user sock = u
      | _ \<Rightarrow> False)"

text \<open>The events among \<open>calls\<close> addressed to \<open>u\<close>, in call order.\<close>

definition events_for :: "user_id \<Rightarrow> (user_id \<times> string \<times> jsvalue) list \<Rightarrow> message list" where
  "events_for u calls =
     map (\<lambda>(v, ev, p). \<lparr>event = ev, payload = p\<rparr>) (filter (\<lambda>(v, ev, p). v = u) calls)"

definition deliveries :: "socket \<Rightarrow> message list \<Rightarrow> (socket \<times> string \<times> jsvalue) list" where
  "deliveries sock ms = map (\<lambda>m. (sock, event m, payload m)) ms"

text \<open>Example data: an idle relay in which only alice lists bob as a friend.\<close>

abbreviation alice :: user_id where "alice \<equiv> ''alice''"
abbreviation bob :: user_id where "bob \<equiv> ''bob''"

definition idle_relay :: relay where
  "idle_relay =
     \<lparr>friends = (\<lambda>u. if u = alice then {bob} else {}),
      socketsByUser = Map.empty, undeliveredMessages = Map.empty, emitted = []\<rparr>"

section \<open>JavaScript numbers, typed arrays and strings\<close>

text \<open>
  The numbers of the codec are integers; the bitwise operators first bring their operands
  to 32-bit two's complement (\<^verbatim>\<open>ToInt32\<close>), and a shift uses its count modulo 32.
\<close>

type_synonym byte = "8 word"
type_synonym code_unit = "16 word"
type_synonym jsstring = "code_unit list"

definition ToInt32 :: "int \<Rightarrow> int" where
  "ToInt32 v = signed_take_bit 31 v"

definition js_and :: "int \<Rightarrow> int \<Rightarrow> int" where
  "js_and a b = ToInt32 a AND ToInt32 b"

definition js_or :: "int \<Rightarrow> int \<Rightarrow> int" where
  "js_or a b = ToInt32 a OR ToInt32 b"

definition js_shl :: "int \<Rightarrow> nat \<Rightarrow> int" where
  "js_shl a k = ToInt32 (ToInt32 a * 2 ^ (k mod 32))"

definition js_sar :: "int \<Rightarrow> nat \<Rightarrow> int" where
  "js_sar a k = ToInt32 a div 2 ^ (k mod 32)"

text \<open>A store into a \<^verbatim>\<open>Uint8Array\<close> wraps modulo 256, into a \<^verbatim>\<open>Uint8ClampedArray\<close> clamps.\<close>

definition ToUint8 :: "int \<Rightarrow> byte" where
  "ToUint8 v = word_of_int v"

definition ToUint8Clamp :: "int \<Rightarrow> byte" where
  "ToUint8Clamp v = word_of_int (max 0 (min 255 v))"

text \<open>
  \<^verbatim>\<open>Array.prototype.slice(start, end)\<close>: a negative index counts from the end, and both
  are clamped to the array.
\<close>

definition slice_index :: "nat \<Rightarrow> int \<Rightarrow> nat" where
  "slice_index len k = (if k < 0 then nat (max (int len + k) 0) else min (nat k) len)"

definition js_slice :: "'a list \<Rightarrow> int \<Rightarrow> int \<Rightarrow> 'a list" where
  "js_slice xs start fin =
     (let from = slice_index (length xs) start; to = slice_index (length xs) fin
      in take (to - from) (drop from xs))"

subsection \<open>TextEncoder and TextDecoder (UTF-8, as the Encoding standard defines them)\<close>

definition is_high_surrogate :: "nat \<Rightarrow> bool" where
  "is_high_surrogate u = (0xD800 \<le> u \<and> u \<le> 0xDBFF)"

definition is_low_surrogate :: "nat \<Rightarrow> bool" where
  "is_low_surrogate u = (0xDC00 \<le> u \<and> u \<le> 0xDFFF)"

definition is_surrogate :: "nat \<Rightarrow> bool" where
  "is_surrogate u = (0xD800 \<le> u \<and> u \<le> 0xDFFF)"

text \<open>
  A string is a sequence of UTF-16 code units. \<^verbatim>\<open>TextEncoder.encode\<close> takes its argument
  as a scalar value string: a surrogate pair is one code point, and a surrogate that is not
  part of a pair becomes U+FFFD.
\<close>

fun to_scalar_values :: "jsstring \<Rightarrow> nat list" where
  "to_scalar_values [] = []"
| "to_scalar_values [u] = [if is_surrogate (unat u) then 0xFFFD else unat u]"
| "to_scalar_values (u # v # rest) =
     (if is_high_surrogate (unat u) \<and> is_low_surrogate (unat v)
      then (0x10000 + (unat u - 0xD800) * 0x400 + (unat v - 0xDC00)) # to_scalar_values rest
      else (if is_surrogate (unat u) then 0xFFFD else unat u) # to_scalar_values (v # rest))"

text \<open>\<^verbatim>\<open>String.prototype.isWellFormed\<close>: no surrogate outside a pair.\<close>

fun isWellFormed :: "jsstring \<Rightarrow> bool" where
  "isWellFormed [] = True"
| "isWellFormed [u] = (\<not> is_surrogate (unat u))"
| "isWellFormed (u # v # rest) =
     (if is_high_surrogate (unat u) \<and> is_low_surrogate (unat v) then isWellFormed rest
      else \<not> is_surrogate (unat u) \<and> isWellFormed (v # rest))"

text \<open>Scalar values: the code points that are not surrogates.\<close>

definition is_scalar :: "nat \<Rightarrow> bool" where
  "is_scalar c = (c < 0x110000 \<and> \<not> is_surrogate c)"

text \<open>Whether a string begins with U+FEFF, the byte order mark.\<close>

definition has_leading_BOM :: "jsstring \<Rightarrow> bool" where
  "has_leading_BOM text = (case text of [] \<Rightarrow> False | u # rest \<Rightarrow> u = 0xFEFF)"

text \<open>The UTF-8 encoder's handler for one code point.\<close>

definition utf8_encode_code_point :: "nat \<Rightarrow> byte list" where
  "utf8_encode_code_point cp =
     (if cp \<le> 0x7F then [of_nat cp]
      else
        (let count = (if cp \<le> 0x7FF then 1 else if cp \<le> 0xFFFF then 2 else 3);
             offset = (if cp \<le> 0x7FF then 0xC0 else if cp \<le> 0xFFFF then 0xE0 else 0xF0)
         in of_nat (cp div 2 ^ (6 * count) + offset) #
            map (\<lambda>k. of_nat (0x80 + (cp div 2 ^ (6 * k)) mod 0x40)) (rev [0..<count])))"

definition TextEncoder_encode :: "jsstring \<Rightarrow> byte list" where
  "TextEncoder_encode text = concat (map utf8_encode_code_point (to_scalar_values text))"

text \<open>
  The UTF-8 decoder's handler, run over the bytes with its five variables (code point,
  bytes seen, bytes needed, lower and upper boundary); an error emits U+FFFD, the
  \<^verbatim>\<open>TextDecoder\<close> not being fatal. A byte outside the boundaries ends the sequence and is
  read again from the initial state.
\<close>

function utf8_decode :: "nat \<Rightarrow> nat \<Rightarrow> nat \<Rightarrow> nat \<Rightarrow> nat \<Rightarrow> byte list \<Rightarrow> nat list" where
  "utf8_decode cp seen needed lower upper [] = (if needed \<noteq> 0 then [0xFFFD] else [])"
| "utf8_decode cp seen needed lower upper (b # bs) =
     (let byte = unat b in
      if needed = 0 then
        (if byte \<le> 0x7F then byte # utf8_decode 0 0 0 0x80 0xBF bs
         else if 0xC2 \<le> byte \<and> byte \<le> 0xDF then utf8_decode (byte mod 0x20) 0 1 0x80 0xBF bs
         else if 0xE0 \<le> byte \<and> byte \<le> 0xEF then
           utf8_decode (byte mod 0x10) 0 2
             (if byte = 0xE0 then 0xA0 else 0x80) (if byte = 0xED then 0x9F else 0xBF) bs
         else if 0xF0 \<le> byte \<and> byte \<le> 0xF4 then
           utf8_decode (byte mod 8) 0 3
             (if byte = 0xF0 then 0x90 else 0x80) (if byte = 0xF4 then 0x8F else 0xBF) bs
         else 0xFFFD # utf8_decode 0 0 0 0x80 0xBF bs)
      else if byte < lower \<or> upper < byte then 0xFFFD # utf8_decode 0 0 0 0x80 0xBF (b # bs)
      else if seen + 1 \<noteq> needed then
        utf8_decode (cp * 0x40 + byte mod 0x40) (seen + 1) needed 0x80 0xBF bs
      else (cp * 0x40 + byte mod 0x40) # utf8_decode 0 0 0 0x80 0xBF bs)"
  by pat_completeness auto
termination
  by (relation "measures [\<lambda>(cp, seen, needed, lower, upper, bs). length bs,
                          \<lambda>(cp, seen, needed, lower, upper, bs). needed]") auto

declare utf8_decode.simps [simp del]

text \<open>A code point as UTF-16 code units.\<close>

definition utf16_units :: "nat \<Rightarrow> jsstring" where
  "utf16_units cp =
     (if cp < 0x10000 then [of_nat cp]
      else [of_nat (0xD800 + (cp - 0x10000) div 0x400), of_nat (0xDC00 + (cp - 0x10000) mod 0x400)])"

text \<open>
  \<^verbatim>\<open>new TextDecoder().decode(bytes)\<close>: UTF-8, not fatal, and (\<^verbatim>\<open>ignoreBOM\<close> being false)
  a leading U+FEFF is not part of the result.
\<close>

definition TextDecoder_decode :: "byte list \<Rightarrow> jsstring" where
  "TextDecoder_decode bytes =
     (let cps = utf8_decode 0 0 0 0x80 0xBF bytes;
          cps' = (case cps of [] \<Rightarrow> [] | c # rest \<Rightarrow> if c = 0xFEFF then rest else cps)
      in concat (map utf16_units cps'))"

section \<open>The steganographic codec (frontend, utils/stego)\<close>

definition CANVAS_SIZE :: nat where
  "CANVAS_SIZE = 256"

definition LENGTH_PREFIX_BITS :: nat where
  "LENGTH_PREFIX_BITS = 32"

text \<open>
  \<^verbatim>\<open>
  function numberToBits(value, length) {
    const bits = new Array(length).fill(0);
    for (let i = 0; i < length; i += 1) bits[length - 1 - i] = (value >> i) & 1;
    return bits;
  }
  \<close>
\<close>

definition numberToBits :: "int \<Rightarrow> nat \<Rightarrow> int list" where
  "numberToBits val len =
     foldl (\<lambda>bits i. bits[len - 1 - i := js_and (js_sar val i) 1]) (replicate len 0) [0..<len]"

text \<open>
  \<^verbatim>\<open>
  function bitsToNumber(bits) {
    let value = 0;
    for (let i = 0; i < bits.length; i += 1) value = (value << 1) | (bits[i] & 1);
    return value;
  }
  \<close>
\<close>

definition bitsToNumber :: "int list \<Rightarrow> int" where
  "bitsToNumber bits = foldl (\<lambda>val b. js_or (js_shl val 1) (js_and b 1)) 0 bits"

definition textToBits :: "jsstring \<Rightarrow> int list" where
  "textToBits text =
     (let bytes = TextEncoder_encode text;
          dataBits = foldl (\<lambda>acc byte. acc @ numberToBits (uint byte) 8) [] bytes
      in numberToBits (int (length bytes)) LENGTH_PREFIX_BITS @ dataBits)"

text \<open>
  An image is its raster: width, height and the RGBA bytes of \<^verbatim>\<open>getImageData\<close>, four per
  pixel in row-major order. The PNG data URL that travels between
  \<^verbatim>\<open>embedTextInImage\<close> and \<^verbatim>\<open>extractTextFromImage\<close> is represented by the raster it
  encodes: PNG is lossless and the carrier is opaque, so \<^verbatim>\<open>toDataURL\<close> followed by
  \<^verbatim>\<open>decode\<close>, \<^verbatim>\<open>drawImage\<close> and \<^verbatim>\<open>getImageData\<close> gives the same bytes back.
\<close>

record image =
  width :: nat
  height :: nat
  data :: "byte list"

datatype codec_error =
    CanvasContextUnavailable
  | MessageTooLong
  | IndexSizeError
  | RangeError

text \<open>The canvas after \<^verbatim>\<open>fillStyle = '#0b1120'; fillRect(0, 0, width, height)\<close>.\<close>

definition filled_canvas :: "byte list" where
  "filled_canvas = concat (replicate (CANVAS_SIZE * CANVAS_SIZE) [0x0b, 0x11, 0x20, 0xff])"

text \<open>
  \<^verbatim>\<open>embedTextInImage(text)\<close>. The parameter \<open>has2d\<close> says whether the browser gives the
  canvas a 2D context. The write loop runs only after the capacity check, so its indices
  are inside \<open>bits\<close> and inside the raster.
\<close>

definition embedTextInImage :: "bool \<Rightarrow> jsstring \<Rightarrow> codec_error + image" where
  "embedTextInImage has2d text =
     (let bits = textToBits text in
      if \<not> has2d then Inl CanvasContextUnavailable
      else
        (let imageData = filled_canvas;
             maxBits = CANVAS_SIZE * CANVAS_SIZE
         in if length bits > maxBits then Inl MessageTooLong
            else Inr \<lparr>width = CANVAS_SIZE, height = CANVAS_SIZE,
                      data = foldl (\<lambda>d i. d[i * 4 + 2 :=
                                 ToUint8Clamp (js_or (js_and (uint (d ! (i * 4 + 2))) 0xfe) (bits ! i))])
                               imageData [0..<length bits]\<rparr>))"

text \<open>\<^verbatim>\<open>data[i] & 1\<close>; a read past the end of a typed array is \<^verbatim>\<open>undefined\<close>, and \<^verbatim>\<open>undefined & 1\<close> is 0.\<close>

definition lsb_at :: "byte list \<Rightarrow> nat \<Rightarrow> int" where
  "lsb_at d i = (if i < length d then js_and (uint (d ! i)) 1 else 0)"

text \<open>
  The read loop of \<^verbatim>\<open>extractTextFromImage\<close>:
  \<^verbatim>\<open>for (let i = 0; i < totalPixels; i += 1) bits.push(data[i * 4 + 2] & 1)\<close>.
\<close>

definition carrier_bits :: "image \<Rightarrow> int list" where
  "carrier_bits img =
     (let totalPixels = width img * height img
      in map (\<lambda>i. lsb_at (data img) (i * 4 + 2)) [0..<totalPixels])"

text \<open>
  \<^verbatim>\<open>extractTextFromImage(imageDataUrl)\<close>, from the decoded image on.
  \<^verbatim>\<open>getImageData\<close> refuses an empty rectangle, and \<^verbatim>\<open>new Uint8Array(n)\<close> a negative \<open>n\<close>;
  nothing else in the function throws.
\<close>

definition extractTextFromImage :: "bool \<Rightarrow> image \<Rightarrow> codec_error + jsstring" where
  "extractTextFromImage has2d img =
     (if \<not> has2d then Inl CanvasContextUnavailable
      else if width img = 0 \<or> height img = 0 then Inl IndexSizeError
      else
        (let bits = carrier_bits img;
             lengthBits = js_slice bits 0 (int LENGTH_PREFIX_BITS);
             payloadLength = bitsToNumber lengthBits;
             payloadBits = js_slice bits (int LENGTH_PREFIX_BITS)
                             (int LENGTH_PREFIX_BITS + payloadLength * 8)
         in if payloadLength < 0 then Inl RangeError
            else Inr (TextDecoder_decode
                   (map (\<lambda>i. ToUint8 (bitsToNumber (js_slice payloadBits (int i * 8) (int i * 8 + 8))))
                      [0..<nat payloadLength]))))"

text \<open>\<^verbatim>\<open>extractTextFromImage(await embedTextInImage(text))\<close>\<close>

definition embed_then_extract :: "bool \<Rightarrow> jsstring \<Rightarrow> codec_error + jsstring" where
  "embed_then_extract has2d text =
     (case embedTextInImage has2d text of
        Inl e \<Rightarrow> Inl e
      | Inr img \<Rightarrow> extractTextFromImage has2d img)"

section \<open>Base64 on the wire (frontend, utils/crypto)\<close>

text \<open>
  \<^verbatim>\<open>btoa\<close> and \<^verbatim>\<open>atob\<close> are the browser's; they are modelled after the HTML and
  Infra standards (forgiving-base64 encode and decode). Both throw an
  \<^verbatim>\<open>InvalidCharacterError\<close>.
\<close>

datatype dom_exception = InvalidCharacterError

text \<open>The base64 alphabet: A-Z, a-z, 0-9, + and /.\<close>

definition b64_char :: "nat \<Rightarrow> code_unit" where
  "b64_char k =
     of_nat (if k < 26 then 0x41 + k
             else if k < 52 then 0x61 + (k - 26)
             else if k < 62 then 0x30 + (k - 52)
             else if k = 62 then 0x2B else 0x2F)"

definition sextet_of :: "code_unit \<Rightarrow> nat option" where
  "sextet_of u =
     (let c = unat u in
      if 0x41 \<le> c \<and> c \<le> 0x5A then Some (c - 0x41)
      else if 0x61 \<le> c \<and> c \<le> 0x7A then Some (c - 0x61 + 26)
      else if 0x30 \<le> c \<and> c \<le> 0x39 then Some (c - 0x30 + 52)
      else if c = 0x2B then Some 62
      else if c = 0x2F then Some 63
      else None)"

text \<open>
  Forgiving-base64 encode: three bytes make a 24-bit group of four sextets; a last group
  of one or two bytes is filled with zero bits to 12 or 18 bits and padded with \<open>=\<close>.
\<close>

fun base64_encode :: "byte list \<Rightarrow> jsstring" where
  "base64_encode [] = []"
| "base64_encode [a] =
     (let n = unat a * 16
      in [b64_char (n div 64), b64_char (n mod 64), 0x3D, 0x3D])"
| "base64_encode [a, b] =
     (let n = (unat a * 256 + unat b) * 4
      in [b64_char (n div 4096), b64_char (n div 64 mod 64), b64_char (n mod 64), 0x3D])"
| "base64_encode (a # b # c # rest) =
     (let n = (unat a * 256 + unat b) * 256 + unat c
      in [b64_char (n div 262144), b64_char (n div 4096 mod 64),
          b64_char (n div 64 mod 64), b64_char (n mod 64)] @ base64_encode rest)"

text \<open>\<^verbatim>\<open>btoa(s)\<close>: every code unit of \<open>s\<close> must be a byte.\<close>

definition btoa :: "jsstring \<Rightarrow> dom_exception + jsstring" where
  "btoa s =
     (if \<exists>u \<in> set s. 0xFF < unat u then Inl InvalidCharacterError
      else Inr (base64_encode (map ucast s)))"

definition is_ascii_whitespace :: "code_unit \<Rightarrow> bool" where
  "is_ascii_whitespace u = (u = 0x09 \<or> u = 0x0A \<or> u = 0x0C \<or> u = 0x0D \<or> u = 0x20)"

text \<open>One or two \<open>=\<close> at the end are removed.\<close>

definition strip_padding :: "jsstring \<Rightarrow> jsstring" where
  "strip_padding d =
     (case rev d of
        u # v # r \<Rightarrow> if u = 0x3D \<and> v = 0x3D then rev r else if u = 0x3D then rev (v # r) else d
      | [u] \<Rightarrow> if u = 0x3D then [] else d
      | [] \<Rightarrow> d)"

text \<open>The sextets of the characters; \<open>None\<close> when a character is not of the alphabet.\<close>

fun sextets :: "jsstring \<Rightarrow> nat list option" where
  "sextets [] = Some []"
| "sextets (u # us) =
     (case sextet_of u of
        None \<Rightarrow> None
      | Some k \<Rightarrow> (case sextets us of None \<Rightarrow> None | Some ks \<Rightarrow> Some (k # ks)))"

text \<open>
  The bit buffer of the decoder: four sextets are three bytes; of the 12 or 18 bits left
  at the end, the last four or two are discarded.
\<close>

fun decode_sextets :: "nat list \<Rightarrow> byte list" where
  "decode_sextets (s0 # s1 # s2 # s3 # rest) =
     (let n = ((s0 * 64 + s1) * 64 + s2) * 64 + s3
      in [of_nat (n div 65536), of_nat (n div 256 mod 256), of_nat (n mod 256)] @
         decode_sextets rest)"
| "decode_sextets [s0, s1, s2] =
     (let n = ((s0 * 64 + s1) * 64 + s2) div 4
      in [of_nat (n div 256), of_nat (n mod 256)])"
| "decode_sextets [s0, s1] = (let n = (s0 * 64 + s1) div 16 in [of_nat n])"
| "decode_sextets [s0] = []"
| "decode_sextets [] = []"

text \<open>\<^verbatim>\<open>atob(data)\<close>: forgiving-base64 decode, the bytes as a binary string.\<close>

definition atob :: "jsstring \<Rightarrow> dom_exception + jsstring" where
  "atob d =
     (let d1 = filter (\<lambda>u. \<not> is_ascii_whitespace u) d;
          d2 = (if length d1 mod 4 = 0 then strip_padding d1 else d1)
      in if length d2 mod 4 = 1 then Inl InvalidCharacterError
         else (case sextets d2 of
                 None \<Rightarrow> Inl InvalidCharacterError
               | Some ks \<Rightarrow> Inr (map ucast (decode_sextets ks))))"

text \<open>\<^verbatim>\<open>String.fromCharCode(n)\<close> and \<^verbatim>\<open>s.charCodeAt(i)\<close> for \<open>i\<close> inside the string.\<close>

definition String_fromCharCode :: "int \<Rightarrow> code_unit" where
  "String_fromCharCode n = word_of_int n"

definition charCodeAt :: "jsstring \<Rightarrow> nat \<Rightarrow> int" where
  "charCodeAt s i = uint (s ! i)"

text \<open>
  \<^verbatim>\<open>
  export function bufferToBase64(buffer) {
    const bytes = buffer instanceof Uint8Array ? buffer : new Uint8Array(buffer);
    let binary = '';
    bytes.forEach((byte) => (binary += String.fromCharCode(byte)));
    return btoa(binary);
  }
  \<close>
\<close>

definition bufferToBase64 :: "byte list \<Rightarrow> dom_exception + jsstring" where
  "bufferToBase64 bytes =
     btoa (foldl (\<lambda>binary byte. binary @ [String_fromCharCode (uint byte)]) [] bytes)"

text \<open>
  \<^verbatim>\<open>
  export function base64ToBytes(base64) {
    const binary = atob(base64);
    const bytes = new Uint8Array(binary.length);
    for (let i = 0; i < binary.length; i += 1) bytes[i] = binary.charCodeAt(i);
    return bytes;
  }
  \<close>
\<close>

definition base64ToBytes :: "jsstring \<Rightarrow> dom_exception + byte list" where
  "base64ToBytes base64 =
     (case atob base64 of
        Inl e \<Rightarrow> Inl e
      | Inr binary \<Rightarrow> Inr (map (\<lambda>i. ToUint8 (charCodeAt binary i)) [0..<length binary]))"

text \<open>\<^verbatim>\<open>base64ToBytes(bufferToBase64(bytes))\<close>\<close>

definition base64_roundtrip :: "byte list \<Rightarrow> dom_exception + byte list" where
  "base64_roundtrip bytes =
     (case bufferToBase64 bytes of Inl e \<Rightarrow> Inl e | Inr s \<Rightarrow> base64ToBytes s)"

text \<open>The sextets that \<open>base64_encode\<close> writes, without the padding.\<close>

fun sextets_of_bytes :: "byte list \<Rightarrow> nat list" where
  "sextets_of_bytes [] = []"
| "sextets_of_bytes [a] = (let n = unat a * 16 in [n div 64, n mod 64])"
| "sextets_of_bytes [a, b] =
     (let n = (unat a * 256 + unat b) * 4 in [n div 4096, n div 64 mod 64, n mod 64])"
| "sextets_of_bytes (a # b # c # rest) =
     (let n = (unat a * 256 + unat b) * 256 + unat c
      in [n div 262144, n div 4096 mod 64, n div 64 mod 64, n mod 64] @ sextets_of_bytes rest)"

section \<open>The client pipeline (frontend, App)\<close>

text \<open>
  The browser is a parameter: the Web Crypto functions behind \<^verbatim>\<open>utils/crypto\<close> and
  whether a canvas gets a 2D context. A promise that rejects is the value \<open>None\<close>.
  Random draws (key pairs, nonces) are numbered by the counter \<open>entropy\<close> of the client.
\<close>

datatype cryptokey = CryptoKey nat

record keypair =
  publicKey :: cryptokey
  privateKey :: cryptokey

record browser =
  generateKey :: "nat \<Rightarrow> keypair"
  importKey :: "jsvalue \<Rightarrow> cryptokey option"
  deriveKey :: "cryptokey \<Rightarrow> cryptokey \<Rightarrow> cryptokey option"
  exportKey :: "cryptokey \<Rightarrow> jsvalue"
  encrypt :: "cryptokey \<Rightarrow> byte list \<Rightarrow> byte list \<Rightarrow> byte list"
  decrypt :: "cryptokey \<Rightarrow> byte list \<Rightarrow> byte list \<Rightarrow> byte list option"
  getRandomValues :: "nat \<Rightarrow> byte list"
  context2d :: bool

text \<open>The wrappers of \<^verbatim>\<open>utils/crypto\<close>.\<close>

definition createKeyPair :: "browser \<Rightarrow> nat \<Rightarrow> keypair" where
  "createKeyPair env seed = generateKey env seed"

definition deriveSharedKey :: "browser \<Rightarrow> cryptokey \<Rightarrow> cryptokey \<Rightarrow> cryptokey option" where
  "deriveSharedKey env priv pub = deriveKey env priv pub"

definition exportPublicKey :: "browser \<Rightarrow> cryptokey \<Rightarrow> jsvalue" where
  "exportPublicKey env pub = exportKey env pub"

definition importPublicKey :: "browser \<Rightarrow> jsvalue \<Rightarrow> cryptokey option" where
  "importPublicKey env jwk = importKey env jwk"

definition encryptWithKey :: "browser \<Rightarrow> nat \<Rightarrow> cryptokey \<Rightarrow> jsstring \<Rightarrow> byte list \<times> byte list" where
  "encryptWithKey env seed key txt =
     (let nonce = getRandomValues env seed;
          encoded = TextEncoder_encode txt
      in (encrypt env key nonce encoded, nonce))"

definition decryptWithKey :: "browser \<Rightarrow> cryptokey \<Rightarrow> byte list \<Rightarrow> byte list \<Rightarrow> jsstring option" where
  "decryptWithKey env key cipherBytes nonce =
     (case decrypt env key nonce cipherBytes of
        None \<Rightarrow> None
      | Some decrypted \<Rightarrow> Some (TextDecoder_decode decrypted))"

text \<open>
  \<^verbatim>\<open>type DHState = { keyPair?: CryptoKeyPair; sharedKey?: CryptoKey; sentPublic?: boolean }\<close>;
  a flag that is absent counts as false, as it does in every test the code makes.
\<close>

record dh_state =
  keyPair :: "keypair option"
  sharedKey :: "cryptokey option"
  sentPublic :: bool

text \<open>The payload of an incoming \<^verbatim>\<open>secure-message\<close>: \<^verbatim>\<open>{ from, imageDataUrl, iv }\<close>.\<close>

record incoming =
  from_id :: user_id
  imageDataUrl :: image
  iv :: jsstring

datatype direction = Sent | Received

text \<open>
  A \<^verbatim>\<open>Message\<close> of a thread; its \<^verbatim>\<open>id\<close> (a random UUID) and \<^verbatim>\<open>createdAt\<close> (the clock)
  are left out.
\<close>

record chat_message =
  msg_from :: user_id
  msg_text :: jsstring
  msg_imageDataUrl :: image
  msg_status :: direction

text \<open>What the client hands to \<^verbatim>\<open>socketRef.current.emit\<close>.\<close>

datatype client_event =
    DhPublic user_id jsvalue
  | SecureMessage user_id image jsstring

datatype js_error = DataError | OperationError | TypeError

text \<open>
  The state of the component: the two maps held in refs, the threads, and the pieces of
  React state that the handlers read or write. The counters that only trigger a render
  (\<^verbatim>\<open>keyVersion\<close>, \<^verbatim>\<open>messagesVersion\<close>, \<^verbatim>\<open>flowStage\<close>) are left out. \<open>socketRef\<close> says
  whether \<^verbatim>\<open>socketRef.current\<close> is a socket; \<open>outbox\<close> is what was emitted through it, in
  order; \<open>console\<close> is what \<^verbatim>\<open>console.error\<close> was called with.
\<close>

record client =
  sharedKeys :: "user_id \<rightharpoonup> dh_state"
  pendingMessages :: "user_id \<rightharpoonup> incoming list"
  threads :: "user_id \<Rightarrow> chat_message list"
  friend_list :: "(user_id \<times> string) list"
  self_id :: "user_id option"
  token :: "string option"
  selectedFriendId :: "user_id option"
  draft :: jsstring
  status :: string
  socketRef :: bool
  outbox :: "client_event list"
  console :: "string list"
  entropy :: nat

definition socket_emit :: "client_event \<Rightarrow> client \<Rightarrow> client" where
  "socket_emit ev c = (if socketRef c then c\<lparr>outbox := outbox c @ [ev]\<rparr> else c)"

definition pushMessage :: "user_id \<Rightarrow> chat_message \<Rightarrow> client \<Rightarrow> client" where
  "pushMessage friendId m c = c\<lparr>threads := (threads c)(friendId := threads c friendId @ [m])\<rparr>"

definition queuePendingMessage :: "user_id \<Rightarrow> incoming \<Rightarrow> client \<Rightarrow> client" where
  "queuePendingMessage friendId p c =
     (let bucket = (case pendingMessages c friendId of None \<Rightarrow> [] | Some b \<Rightarrow> b)
      in c\<lparr>pendingMessages := (pendingMessages c)(friendId \<mapsto> bucket @ [p])\<rparr>)"

definition getFriendName :: "client \<Rightarrow> user_id \<Rightarrow> string" where
  "getFriendName c friendId =
     (case map_of (friend_list c) friendId of None \<Rightarrow> ''Friend'' | Some username \<Rightarrow> username)"

text \<open>
  \<^verbatim>\<open>ensureDHState(friendId)\<close>: the state object of the peer, created empty when absent, with
  a key pair generated when it has none. The object lives in the map, so what is written
  to it is written to the map.
\<close>

definition state_or_empty :: "client \<Rightarrow> user_id \<Rightarrow> dh_state" where
  "state_or_empty c friendId =
     (case sharedKeys c friendId of
        None \<Rightarrow> \<lparr>keyPair = None, sharedKey = None, sentPublic = False\<rparr>
      | Some st \<Rightarrow> st)"

definition ensureDHState :: "browser \<Rightarrow> user_id \<Rightarrow> client \<Rightarrow> dh_state \<times> client" where
  "ensureDHState env friendId c =
     (let state = state_or_empty c friendId;
          c1 = c\<lparr>sharedKeys := (sharedKeys c)(friendId \<mapsto> state)\<rparr>
      in case keyPair state of
           Some kp \<Rightarrow> (state, c1)
         | None \<Rightarrow>
             (let state' = state\<lparr>keyPair := Some (createKeyPair env (entropy c1))\<rparr>
              in (state', c1\<lparr>sharedKeys := (sharedKeys c1)(friendId \<mapsto> state'),
                            entropy := entropy c1 + 1\<rparr>)))"

definition emitPublicKey :: "browser \<Rightarrow> user_id \<Rightarrow> client \<Rightarrow> client" where
  "emitPublicKey env friendId c =
     (let (state, c1) = ensureDHState env friendId c
      in case keyPair state of
           None \<Rightarrow> c1
         | Some kp \<Rightarrow>
             if sentPublic state then c1
             else
               (let exported = exportPublicKey env (publicKey kp);
                    c2 = socket_emit (DhPublic friendId exported) c1
                in c2\<lparr>sharedKeys := (sharedKeys c2)(friendId \<mapsto> state\<lparr>sentPublic := True\<rparr>)\<rparr>))"

text \<open>
  \<^verbatim>\<open>decryptIncoming(payload)\<close>. Without a shared key the payload is queued and the public
  key announced; with one, whatever is thrown inside the \<^verbatim>\<open>try\<close> is logged and dropped.
\<close>

definition decryptIncoming :: "browser \<Rightarrow> incoming \<Rightarrow> client \<Rightarrow> client" where
  "decryptIncoming env p c =
     (case (case sharedKeys c (from_id p) of None \<Rightarrow> None | Some st \<Rightarrow> sharedKey st) of
        None \<Rightarrow>
          (let c1 = queuePendingMessage (from_id p) p c;
               c2 = emitPublicKey env (from_id p) c1
           in c2\<lparr>status := ''Waiting for peer key to decrypt message''\<rparr>)
      | Some key \<Rightarrow>
          (let failed = c\<lparr>console := console c @ [''decrypt incoming failed'']\<rparr>
           in case extractTextFromImage (context2d env) (imageDataUrl p) of
                Inl e \<Rightarrow> failed
              | Inr stegoPayload \<Rightarrow>
                  (case base64ToBytes stegoPayload of
                     Inl e \<Rightarrow> failed
                   | Inr cipherBytes \<Rightarrow>
                       (case base64ToBytes (iv p) of
                          Inl e \<Rightarrow> failed
                        | Inr nonce \<Rightarrow>
                            (case decryptWithKey env key cipherBytes nonce of
                               None \<Rightarrow> failed
                             | Some plain \<Rightarrow>
                                 pushMessage (from_id p)
                                   \<lparr>msg_from = from_id p, msg_text = plain,
                                    msg_imageDataUrl = imageDataUrl p, msg_status = Received\<rparr>
                                   c)))))"

text \<open>
  \<^verbatim>\<open>runPendingMessages(friendId)\<close>: the bucket of the peer is taken out of the map and its
  payloads go through \<^verbatim>\<open>decryptIncoming\<close>, in order.
\<close>

definition runPendingMessages :: "browser \<Rightarrow> user_id \<Rightarrow> client \<Rightarrow> client" where
  "runPendingMessages env friendId c =
     (case pendingMessages c friendId of
        None \<Rightarrow> c
      | Some bucket \<Rightarrow>
          if bucket = [] then c
          else foldl (\<lambda>st p. decryptIncoming env p st)
                 (c\<lparr>pendingMessages := (pendingMessages c)(friendId := None)\<rparr>) bucket)"

text \<open>
  \<^verbatim>\<open>deriveSharedSecret(friendId, theirPublic)\<close>. A rejection of \<^verbatim>\<open>importPublicKey\<close> or
  \<^verbatim>\<open>deriveSharedKey\<close> leaves the function at that point, with the state as it then is.
\<close>

definition deriveSharedSecret ::
  "browser \<Rightarrow> user_id \<Rightarrow> jsvalue \<Rightarrow> client \<Rightarrow> (js_error + unit) \<times> client" where
  "deriveSharedSecret env friendId theirPublic c =
     (let (state, c1) = ensureDHState env friendId c
      in case importPublicKey env theirPublic of
           None \<Rightarrow> (Inl DataError, c1)
         | Some imported \<Rightarrow>
             (case keyPair state of
                None \<Rightarrow> (Inl TypeError, c1)
              | Some kp \<Rightarrow>
                  (case deriveSharedKey env (privateKey kp) imported of
                     None \<Rightarrow> (Inl OperationError, c1)
                   | Some key \<Rightarrow>
                       (let c2 = c1\<lparr>sharedKeys :=
                                      (sharedKeys c1)(friendId \<mapsto> state\<lparr>sharedKey := Some key\<rparr>),
                                    status := ''Secure channel established with '' @
                                              getFriendName c1 friendId\<rparr>;
                            c3 = runPendingMessages env friendId c2;
                            sent = (case sharedKeys c3 friendId of
                                      None \<Rightarrow> False | Some st \<Rightarrow> sentPublic st)
                        in (Inr (), if \<not> sent then emitPublicKey env friendId c3 else c3)))))"

text \<open>The handler of \<^verbatim>\<open>dh-public\<close>: \<^verbatim>\<open>{ from, publicKey }\<close>.\<close>

definition handleDhPayload ::
  "browser \<Rightarrow> user_id \<times> jsvalue \<Rightarrow> client \<Rightarrow> (js_error + unit) \<times> client" where
  "handleDhPayload env d c = deriveSharedSecret env (fst d) (snd d) c"

definition handleIncomingPayload :: "browser \<Rightarrow> incoming \<Rightarrow> client \<Rightarrow> client" where
  "handleIncomingPayload env p c = decryptIncoming env p c"

definition ensureSharedKey :: "browser \<Rightarrow> user_id \<Rightarrow> client \<Rightarrow> cryptokey option \<times> client" where
  "ensureSharedKey env friendId c =
     (case (case sharedKeys c friendId of None \<Rightarrow> None | Some st \<Rightarrow> sharedKey st) of
        Some key \<Rightarrow> (Some key, c)
      | None \<Rightarrow> (None, emitPublicKey env friendId c))"

text \<open>\<^verbatim>\<open>String.prototype.trim\<close>: white space and line terminators go from both ends.\<close>

definition is_js_whitespace :: "code_unit \<Rightarrow> bool" where
  "is_js_whitespace u =
     (let c = unat u in
        (0x09 \<le> c \<and> c \<le> 0x0D) \<or> c = 0x20 \<or> c = 0xA0 \<or> c = 0x1680 \<or>
        (0x2000 \<le> c \<and> c \<le> 0x200A) \<or> c = 0x2028 \<or> c = 0x2029 \<or> c = 0x202F \<or>
        c = 0x205F \<or> c = 0x3000 \<or> c = 0xFEFF)"

definition js_trim :: "jsstring \<Rightarrow> jsstring" where
  "js_trim s = rev (dropWhile is_js_whitespace (rev (dropWhile is_js_whitespace s)))"

text \<open>
  \<^verbatim>\<open>handleSendMessage()\<close>: the send button. It reads the token, the selected friend and
  the draft from the state. An empty string counts as absent, as \<^verbatim>\<open>!token\<close> has it.
\<close>

definition handleSendMessage :: "browser \<Rightarrow> client \<Rightarrow> client" where
  "handleSendMessage env c =
     (case selectedFriendId c of
        None \<Rightarrow> c
      | Some friendId \<Rightarrow>
          if token c = None \<or> token c = Some [] \<or> friendId = [] \<or> js_trim (draft c) = [] then c
          else
            (let messageText = js_trim (draft c);
                 (key_opt, c1) = ensureSharedKey env friendId c
             in case key_opt of
                  None \<Rightarrow> c1\<lparr>status := ''Waiting for shared key exchange''\<rparr>
                | Some key \<Rightarrow>
                    (let (cipherBytes, nonce) = encryptWithKey env (entropy c1) key messageText;
                         c2 = c1\<lparr>entropy := entropy c1 + 1\<rparr>;
                         failed = c2\<lparr>console := console c2 @ [''send message error''],
                                     status := ''Failed to send secure message''\<rparr>
                     in case bufferToBase64 cipherBytes of
                          Inl e \<Rightarrow> failed
                        | Inr cipherBase64 \<Rightarrow>
                            (case embedTextInImage (context2d env) cipherBase64 of
                               Inl e \<Rightarrow> failed
                             | Inr stegoImage \<Rightarrow>
                                 (case bufferToBase64 nonce of
                                    Inl e \<Rightarrow> failed
                                  | Inr nonce64 \<Rightarrow>
                                      (let c3 = socket_emit
                                                  (SecureMessage friendId stegoImage nonce64) c2;
                                           c4 = pushMessage friendId
                                                  \<lparr>msg_from = (case self_id c of None \<Rightarrow> ''me''
                                                               | Some u \<Rightarrow> u),
                                                   msg_text = messageText,
                                                   msg_imageDataUrl = stegoImage,
                                                   msg_status = Sent\<rparr> c3
                                       in c4\<lparr>draft := [],
                                             status := ''Encrypted message sent via image''\<rparr>))))))"



text \<open>
  Example data: a browser whose key functions are simple but of the right shape (a peer
  key is usable when it is a string), and a logged-in client that has selected bob, has
  typed \<open>hi\<close> and has no key-exchange state yet.
\<close>

definition example_browser :: browser where
  "example_browser =
     \<lparr>generateKey = (\<lambda>n. \<lparr>publicKey = CryptoKey (2 * n), privateKey = CryptoKey (2 * n + 1)\<rparr>),
      importKey = (\<lambda>v. case v of JString s \<Rightarrow> Some (CryptoKey (length s)) | _ \<Rightarrow> None),
      deriveKey = (\<lambda>priv pub. Some (CryptoKey 7)),
      exportKey = (\<lambda>k. JString ''jwk''),
      encrypt = (\<lambda>k nonce plain. plain),
      decrypt = (\<lambda>k nonce cipher. Some cipher),
      getRandomValues = (\<lambda>n. replicate 12 0),
      context2d = True\<rparr>"

definition example_client :: client where
  "example_client =
     \<lparr>sharedKeys = Map.empty, pendingMessages = Map.empty, threads = (\<lambda>f. []),
      friend_list = [(bob, ''Bob'')], self_id = Some alice, token = Some ''t'',
      selectedFriendId = Some bob, draft = [0x68, 0x69], status = ''Ready'',
      socketRef = True, outbox = [], console = [], entropy = 0\<rparr>"

text \<open>The padding that \<open>base64_encode\<close> writes.\<close>

fun padding_of_bytes :: "byte list \<Rightarrow> jsstring" where
  "padding_of_bytes [] = []"
| "padding_of_bytes [a] = [0x3D, 0x3D]"
| "padding_of_bytes [a, b] = [0x3D]"
| "padding_of_bytes (a # b # c # rest) = padding_of_bytes rest"





section \<open>Properties of the relay\<close>

lemma emitted_flush:
  "emitted (foldl (\<lambda>st m. emit sock (event m) (payload m) st) s ms) =
     emitted s @ deliveries sock ms"
  by (induction ms arbitrary: s) (simp_all add: emit_def deliveries_def)

lemma undelivered_flush:
  "undeliveredMessages (foldl (\<lambda>st m. emit sock (event m) (payload m) st) s ms) =
     undeliveredMessages s"
  by (induction ms arbitrary: s) (simp_all add: emit_def)

lemma sockets_flush:
  "socketsByUser (foldl (\<lambda>st m. emit sock (event m) (payload m) st) s ms) = socketsByUser s"
  by (induction ms arbitrary: s) (simp_all add: emit_def)

lemma sockets_sendOrStore: "socketsByUser (sendOrStore v ev p s) = socketsByUser s"
  by (simp add: sendOrStore_def emit_def split: option.splits)

lemma bucket_sendOrStore:
  "socketsByUser s u = None \<Longrightarrow>
   bucket_of (sendOrStore v ev p s) u =
     bucket_of s u @ (if v = u then [\<lparr>event = ev, payload = p\<rparr>] else [])"
  by (simp add: sendOrStore_def emit_def bucket_of_def split: option.splits)

lemma emitted_connection:
  "emitted (connection sock s) = emitted s @ deliveries sock (bucket_of s (user sock))"
  by (simp add: connection_def Let_def emitted_flush bucket_of_def)

lemma bucket_connection: "undeliveredMessages (connection sock s) (user sock) = Some []"
  by (simp add: connection_def Let_def)

lemma friends_sendOrStore: "friends (sendOrStore v ev p s) = friends s"
  by (simp add: sendOrStore_def emit_def split: option.splits)

lemma friends_flush:
  "friends (foldl (\<lambda>st m. emit sock (event m) (payload m) st) s ms) = friends s"
  by (induction ms arbitrary: s) (simp_all add: emit_def)

lemma friends_step: "friends (relay_step i s) = friends s"
  by (cases i)
    (simp_all add: connection_def Let_def friends_flush on_dh_public_def on_secure_message_def
      on_disconnect_def friends_sendOrStore split: jsvalue.splits)

lemma offline_step:
  assumes "socketsByUser s u = None" "\<not> is_connection_of u i"
  shows "socketsByUser (relay_step i s) u = None"
  using assms
  by (cases i)
    (simp_all add: is_connection_of_def connection_def Let_def sockets_flush on_dh_public_def
      on_secure_message_def on_disconnect_def sockets_sendOrStore split: jsvalue.splits)

lemma bucket_step:
  assumes "socketsByUser s u = None" "\<not> is_connection_of u i"
  shows "bucket_of (relay_step i s) u = bucket_of s u @ events_for u (routed (friends s) i)"
proof (cases i)
  case (Connection sock)
  then have "user sock \<noteq> u" using assms(2) by (simp add: is_connection_of_def)
  then show ?thesis using Connection
    by (simp add: connection_def Let_def bucket_of_def undelivered_flush events_for_def)
next
  case (OnDhPublic sock arg)
  then show ?thesis using assms(1)
    by (simp add: on_dh_public_def friends_has_def bucket_sendOrStore events_for_def
        split: jsvalue.splits)
next
  case (OnSecureMessage sock arg)
  then show ?thesis using assms(1)
    by (simp add: on_secure_message_def friends_has_def bucket_sendOrStore events_for_def
        split: jsvalue.splits)
next
  case (OnDisconnect sock)
  then show ?thesis by (simp add: on_disconnect_def bucket_of_def events_for_def)
qed

lemma events_for_append: "events_for u (xs @ ys) = events_for u xs @ events_for u ys"
  by (simp add: events_for_def)

lemma run_offline:
  assumes "socketsByUser s u = None" "\<And>i. i \<in> set inputs \<Longrightarrow> \<not> is_connection_of u i"
  shows "socketsByUser (relay_run inputs s) u = None \<and>
         friends (relay_run inputs s) = friends s \<and>
         bucket_of (relay_run inputs s) u =
           bucket_of s u @ events_for u (concat (map (routed (friends s)) inputs))"
  using assms
proof (induction inputs arbitrary: s)
  case Nil
  then show ?case by (simp add: relay_run_def events_for_def)
next
  case (Cons i inputs)
  have i: "\<not> is_connection_of u i" using Cons.prems(2) by simp
  have off: "socketsByUser (relay_step i s) u = None"
    by (rule offline_step [OF Cons.prems(1) i])
  have run: "relay_run (i # inputs) s = relay_run inputs (relay_step i s)"
    by (simp add: relay_run_def)
  from Cons.IH [OF off] Cons.prems(2)
  have IH: "socketsByUser (relay_run inputs (relay_step i s)) u = None"
    "friends (relay_run inputs (relay_step i s)) = friends (relay_step i s)"
    "bucket_of (relay_run inputs (relay_step i s)) u =
       bucket_of (relay_step i s) u @
       events_for u (concat (map (routed (friends (relay_step i s))) inputs))"
    by simp_all
  show ?case
    unfolding run
    by (simp add: IH friends_step bucket_step [OF Cons.prems(1) i] events_for_append)
qed

lemma presence_step:
  "\<not> touches_presence_of u i \<Longrightarrow> socketsByUser (relay_step i s) u = socketsByUser s u"
  by (cases i)
    (simp_all add: touches_presence_of_def connection_def Let_def sockets_flush on_dh_public_def
      on_secure_message_def on_disconnect_def sockets_sendOrStore split: jsvalue.splits)

lemma presence_run:
  "(\<And>i. i \<in> set inputs \<Longrightarrow> \<not> touches_presence_of u i) \<Longrightarrow>
   socketsByUser (relay_run inputs s) u = socketsByUser s u"
  by (induction inputs arbitrary: s) (simp_all add: relay_run_def presence_step)

text \<open>
  C8. Every call \<^verbatim>\<open>sendOrStore(userId, event, payload)\<close> has exactly one of two effects.
  With a handle registered for \<open>userId\<close> the payload is emitted to that handle and the
  undelivered map is unchanged; with none, nothing is emitted and the payload goes to the
  tail of \<open>userId\<close>'s bucket, every other bucket unchanged. The presence map and the
  friend sets are untouched either way.
\<close>

theorem sendOrStore_frame:
  "(\<forall>h. socketsByUser s userId = Some h \<longrightarrow>
        emitted (sendOrStore userId ev p s) = emitted s @ [(h, ev, p)] \<and>
        undeliveredMessages (sendOrStore userId ev p s) = undeliveredMessages s) \<and>
   (socketsByUser s userId = None \<longrightarrow>
        emitted (sendOrStore userId ev p s) = emitted s \<and>
        undeliveredMessages (sendOrStore userId ev p s) userId =
          Some (bucket_of s userId @ [\<lparr>event = ev, payload = p\<rparr>]) \<and>
        (\<forall>v. v \<noteq> userId \<longrightarrow>
           undeliveredMessages (sendOrStore userId ev p s) v = undeliveredMessages s v)) \<and>
   socketsByUser (sendOrStore userId ev p s) = socketsByUser s \<and>
   friends (sendOrStore userId ev p s) = friends s"
  by (simp add: sendOrStore_def emit_def split: option.splits)

theorem sendOrStore_frame_witness:
  "socketsByUser (connection \<lparr>sid = 1, user = bob\<rparr> idle_relay) bob = Some \<lparr>sid = 1, user = bob\<rparr> \<and>
   emitted (sendOrStore bob ''dh-public'' JUndefined (connection \<lparr>sid = 1, user = bob\<rparr> idle_relay)) =
     [(\<lparr>sid = 1, user = bob\<rparr>, ''dh-public'', JUndefined)] \<and>
   socketsByUser idle_relay bob = None \<and>
   emitted (sendOrStore bob ''dh-public'' JUndefined idle_relay) = [] \<and>
   undeliveredMessages (sendOrStore bob ''dh-public'' JUndefined idle_relay) bob =
     Some [\<lparr>event = ''dh-public'', payload = JUndefined\<rparr>] \<and>
   undeliveredMessages (sendOrStore bob ''dh-public'' JUndefined idle_relay) alice = None"
  using sendOrStore_frame [of "connection \<lparr>sid = 1, user = bob\<rparr> idle_relay" bob "''dh-public''" JUndefined]
    sendOrStore_frame [of idle_relay bob "''dh-public''" JUndefined]
  by (simp add: idle_relay_def connection_def bucket_of_def)

text \<open>
  C4. Let the principal of \<open>sock\<close> be offline in \<open>s\<close>, and let the relay take any
  sequence of inputs in which that principal does not connect (connections, disconnects
  and events of others, in any order). The events that the handlers route to the
  principal meanwhile are appended to its bucket in arrival order. On the principal's next
  connection the new socket is sent what the bucket held before followed by those
  events, in that order and once each; the bucket is empty afterwards, so a later
  connection of the same principal is sent nothing again.
\<close>

theorem store_and_forward_fifo:
  assumes "socketsByUser s (user sock) = None"
    and "\<forall>i \<in> set inputs. \<not> is_connection_of (user sock) i"
  shows "bucket_of (relay_run inputs s) (user sock) =
           bucket_of s (user sock) @
           events_for (user sock) (concat (map (routed (friends s)) inputs)) \<and>
         emitted (connection sock (relay_run inputs s)) =
           emitted (relay_run inputs s) @
           deliveries sock (bucket_of s (user sock) @
             events_for (user sock) (concat (map (routed (friends s)) inputs))) \<and>
         undeliveredMessages (connection sock (relay_run inputs s)) (user sock) = Some [] \<and>
         (\<forall>sock'. user sock' = user sock \<longrightarrow>
            emitted (connection sock' (connection sock (relay_run inputs s))) =
            emitted (connection sock (relay_run inputs s)))"
proof -
  let ?t = "relay_run inputs s"
  have run: "bucket_of ?t (user sock) =
      bucket_of s (user sock) @ events_for (user sock) (concat (map (routed (friends s)) inputs))"
    using run_offline [OF assms(1), of inputs] assms(2) by blast
  have flush: "emitted (connection sock ?t) = emitted ?t @ deliveries sock (bucket_of ?t (user sock))"
    by (rule emitted_connection)
  have empty: "undeliveredMessages (connection sock ?t) (user sock) = Some []"
    by (rule bucket_connection)
  have again: "emitted (connection sock' (connection sock ?t)) = emitted (connection sock ?t)"
    if "user sock' = user sock" for sock'
    using that empty by (simp add: emitted_connection bucket_of_def deliveries_def)
  from run flush empty again show ?thesis by (simp only: run) blast
qed

theorem store_and_forward_fifo_witness:
  "socketsByUser idle_relay (user \<lparr>sid = 7, user = bob\<rparr>) = None \<and>
   bucket_of (relay_run
       [OnDhPublic \<lparr>sid = 3, user = alice\<rparr> [(''toUserId'', JString bob), (''publicKey'', JString ''k'')],
        Connection \<lparr>sid = 4, user = ''carol''\<rparr>,
        OnSecureMessage \<lparr>sid = 4, user = ''carol''\<rparr> [(''toUserId'', JString bob)],
        OnSecureMessage \<lparr>sid = 3, user = alice\<rparr> [(''toUserId'', JString bob), (''iv'', JString ''n'')]]
       idle_relay) bob =
     [\<lparr>event = ''dh-public'',
       payload = JObject [(''from'', JString alice), (''publicKey'', JString ''k'')]\<rparr>,
      \<lparr>event = ''secure-message'',
       payload = JObject [(''from'', JString alice), (''toUserId'', JString bob), (''iv'', JString ''n'')]\<rparr>] \<and>
   emitted (connection \<lparr>sid = 7, user = bob\<rparr> (relay_run
       [OnDhPublic \<lparr>sid = 3, user = alice\<rparr> [(''toUserId'', JString bob), (''publicKey'', JString ''k'')],
        Connection \<lparr>sid = 4, user = ''carol''\<rparr>,
        OnSecureMessage \<lparr>sid = 4, user = ''carol''\<rparr> [(''toUserId'', JString bob)],
        OnSecureMessage \<lparr>sid = 3, user = alice\<rparr> [(''toUserId'', JString bob), (''iv'', JString ''n'')]]
       idle_relay)) =
     [(\<lparr>sid = 7, user = bob\<rparr>, ''dh-public'',
       JObject [(''from'', JString alice), (''publicKey'', JString ''k'')]),
      (\<lparr>sid = 7, user = bob\<rparr>, ''secure-message'',
       JObject [(''from'', JString alice), (''toUserId'', JString bob), (''iv'', JString ''n'')])] \<and>
   undeliveredMessages (connection \<lparr>sid = 7, user = bob\<rparr> (relay_run
       [OnDhPublic \<lparr>sid = 3, user = alice\<rparr> [(''toUserId'', JString bob), (''publicKey'', JString ''k'')],
        Connection \<lparr>sid = 4, user = ''carol''\<rparr>,
        OnSecureMessage \<lparr>sid = 4, user = ''carol''\<rparr> [(''toUserId'', JString bob)],
        OnSecureMessage \<lparr>sid = 3, user = alice\<rparr> [(''toUserId'', JString bob), (''iv'', JString ''n'')]]
       idle_relay)) bob = Some []"
proof -
  let ?inputs = "[OnDhPublic \<lparr>sid = 3, user = alice\<rparr> [(''toUserId'', JString bob), (''publicKey'', JString ''k'')],
        Connection \<lparr>sid = 4, user = ''carol''\<rparr>,
        OnSecureMessage \<lparr>sid = 4, user = ''carol''\<rparr> [(''toUserId'', JString bob)],
        OnSecureMessage \<lparr>sid = 3, user = alice\<rparr> [(''toUserId'', JString bob), (''iv'', JString ''n'')]]"
  have off: "socketsByUser idle_relay (user \<lparr>sid = 7, user = bob\<rparr>) = None"
    by (simp add: idle_relay_def)
  have stay: "\<forall>i \<in> set ?inputs. \<not> is_connection_of (user \<lparr>sid = 7, user = bob\<rparr>) i"
    by (simp add: is_connection_of_def)
  have emitted0: "emitted (relay_run ?inputs idle_relay) = []"
    by (simp add: relay_run_def idle_relay_def connection_def bucket_of_def on_dh_public_def
        on_secure_message_def obj_get_def friends_has_def sendOrStore_def)
  have evs: "events_for (user \<lparr>sid = 7, user = bob\<rparr>)
                (concat (map (routed (friends idle_relay)) ?inputs)) =
     [\<lparr>event = ''dh-public'',
       payload = JObject [(''from'', JString alice), (''publicKey'', JString ''k'')]\<rparr>,
      \<lparr>event = ''secure-message'',
       payload = JObject [(''from'', JString alice), (''toUserId'', JString bob), (''iv'', JString ''n'')]\<rparr>]"
    by (simp add: events_for_def idle_relay_def obj_get_def spread_def obj_put_def)
  have b0: "bucket_of idle_relay (user \<lparr>sid = 7, user = bob\<rparr>) = []"
    by (simp add: bucket_of_def idle_relay_def)
  note t = store_and_forward_fifo [OF off stay, unfolded evs b0 emitted0]
  from t off show ?thesis
    by (simp add: deliveries_def)
qed

text \<open>
  C5. When the sender's friend set does not contain the target named in the event, the
  \<^verbatim>\<open>dh-public\<close> and \<^verbatim>\<open>secure-message\<close> handlers return at once: the relay state is
  the same afterwards, so nothing was emitted to any socket (neither to the target nor
  back to the sender) and no bucket grew.
\<close>

theorem untrusted_send_dropped:
  assumes "\<not> friends_has (friends s (user sock)) (obj_get arg ''toUserId'')"
  shows "on_dh_public sock arg s = s \<and> on_secure_message sock arg s = s"
  using assms by (simp add: on_dh_public_def on_secure_message_def)

theorem untrusted_send_dropped_witness:
  "\<not> friends_has (friends idle_relay (user \<lparr>sid = 2, user = bob\<rparr>))
       (obj_get [(''toUserId'', JString alice), (''publicKey'', JString ''k'')] ''toUserId'') \<and>
   on_dh_public \<lparr>sid = 2, user = bob\<rparr>
       [(''toUserId'', JString alice), (''publicKey'', JString ''k'')] idle_relay = idle_relay \<and>
   on_secure_message \<lparr>sid = 2, user = bob\<rparr>
       [(''toUserId'', JString alice), (''publicKey'', JString ''k'')] idle_relay = idle_relay"
proof -
  have untrusted: "\<not> friends_has (friends idle_relay (user \<lparr>sid = 2, user = bob\<rparr>))
       (obj_get [(''toUserId'', JString alice), (''publicKey'', JString ''k'')] ''toUserId'')"
    by (simp add: idle_relay_def friends_has_def obj_get_def)
  show ?thesis
    using untrusted untrusted_send_dropped [OF untrusted] by simp
qed

text \<open>
  C10. The disconnect handler deletes the presence entry of its socket's principal
  whatever socket is registered there. When the principal connected with \<open>old\<close> and
  later with \<open>new\<close> (any inputs in between, and after \<open>new\<close> any inputs that are not a
  connection or disconnect of the principal), the entry holds \<open>new\<close>; the disconnect of
  \<open>old\<close> then removes it, and the next event for the principal is stored instead of being
  emitted to \<open>new\<close>.
\<close>

theorem disconnect_removes_newer_handle:
  fixes old new :: socket and s :: relay and inputs1 inputs2 :: "relay_input list"
  assumes "user old = user new"
    and "\<forall>i \<in> set inputs2. \<not> touches_presence_of (user new) i"
  defines "t \<equiv> relay_run inputs2 (connection new (relay_run inputs1 (connection old s)))"
  shows "socketsByUser t (user new) = Some new \<and>
         socketsByUser (on_disconnect old t) (user new) = None \<and>
         emitted (sendOrStore (user new) ev p (on_disconnect old t)) = emitted t \<and>
         undeliveredMessages (sendOrStore (user new) ev p (on_disconnect old t)) (user new) =
           Some (bucket_of t (user new) @ [\<lparr>event = ev, payload = p\<rparr>])"
proof -
  have "socketsByUser t (user new) =
        socketsByUser (connection new (relay_run inputs1 (connection old s))) (user new)"
    unfolding t_def using assms(2) by (intro presence_run) blast
  then have live: "socketsByUser t (user new) = Some new"
    by (simp add: connection_def Let_def sockets_flush)
  have gone: "socketsByUser (on_disconnect old t) (user new) = None"
    using assms(1) by (simp add: on_disconnect_def)
  have same: "emitted (on_disconnect old t) = emitted t"
    "bucket_of (on_disconnect old t) (user new) = bucket_of t (user new)"
    by (simp_all add: on_disconnect_def bucket_of_def)
  have stored: "emitted (sendOrStore (user new) ev p (on_disconnect old t)) =
        emitted (on_disconnect old t)"
    "undeliveredMessages (sendOrStore (user new) ev p (on_disconnect old t)) (user new) =
        Some (bucket_of (on_disconnect old t) (user new) @ [\<lparr>event = ev, payload = p\<rparr>])"
    using gone by (simp_all add: sendOrStore_def)
  from stored gone same live show ?thesis by simp
qed

theorem disconnect_removes_newer_handle_witness:
  "user \<lparr>sid = 1, user = bob\<rparr> = user \<lparr>sid = 2, user = bob\<rparr> \<and>
   socketsByUser (connection \<lparr>sid = 2, user = bob\<rparr> (connection \<lparr>sid = 1, user = bob\<rparr> idle_relay)) bob =
     Some \<lparr>sid = 2, user = bob\<rparr> \<and>
   socketsByUser (on_disconnect \<lparr>sid = 1, user = bob\<rparr>
     (connection \<lparr>sid = 2, user = bob\<rparr> (connection \<lparr>sid = 1, user = bob\<rparr> idle_relay))) bob = None \<and>
   emitted (sendOrStore bob ''secure-message'' JUndefined (on_disconnect \<lparr>sid = 1, user = bob\<rparr>
     (connection \<lparr>sid = 2, user = bob\<rparr> (connection \<lparr>sid = 1, user = bob\<rparr> idle_relay)))) = []"
proof -
  have same: "user \<lparr>sid = 1, user = bob\<rparr> = user \<lparr>sid = 2, user = bob\<rparr>"
    by simp
  have none: "\<forall>i \<in> set ([] :: relay_input list). \<not> touches_presence_of (user \<lparr>sid = 2, user = bob\<rparr>) i"
    by simp
  show ?thesis
    using disconnect_removes_newer_handle [OF same none, of "[]" idle_relay "''secure-message''" JUndefined]
    by (simp add: relay_run_def idle_relay_def connection_def bucket_of_def)
qed

section \<open>Properties of the codec\<close>

subsection \<open>Bits of a number\<close>

lemma ToInt32_id: "0 \<le> v \<Longrightarrow> v < 2 ^ 31 \<Longrightarrow> ToInt32 v = v"
  by (simp add: ToInt32_def signed_take_bit_int_eq_self)

lemma js_and_1: "js_and a 1 = ToInt32 a mod 2"
  by (simp add: js_and_def ToInt32_id and_one_eq)

lemma js_sar_small:
  assumes "0 \<le> v" "v < 2 ^ 31" "i < 32"
  shows "js_sar v i = v div 2 ^ i"
  using assms by (simp add: js_sar_def ToInt32_id)

lemma div_pow_le: "0 \<le> (v::int) \<Longrightarrow> v div 2 ^ i \<le> v"
  using int_div_le_self by force

lemma bit_of_small:
  assumes "0 \<le> v" "v < 2 ^ 31" "i < 32"
  shows "js_and (js_sar v i) 1 = (v div 2 ^ i) mod 2"
proof -
  have "0 \<le> v div 2 ^ i" using assms(1) by (simp add: pos_imp_zdiv_nonneg_iff)
  moreover have "v div 2 ^ i < 2 ^ 31" using div_pow_le [OF assms(1), of i] assms(2) by linarith
  ultimately have "ToInt32 (v div 2 ^ i) = v div 2 ^ i"
    by (rule ToInt32_id)
  then show ?thesis using assms by (simp add: js_and_1 js_sar_small)
qed

lemma numberToBits_loop:
  "k \<le> len \<Longrightarrow>
   foldl (\<lambda>bits i. bits[len - 1 - i := f i]) (replicate len (0::int)) [0..<k] =
     replicate (len - k) 0 @ map (\<lambda>j. f (len - 1 - j)) [len - k..<len]"
proof (induction k)
  case 0
  then show ?case by simp
next
  case (Suc k)
  then have k: "k < len" by simp
  define m where "m = len - Suc k"
  have m: "len - k = Suc m" "len - 1 - k = m" "len - Suc k = m" "len - 1 - m = k"
    using k by (simp_all add: m_def)
  have upd: "(replicate (Suc m) (0::int) @ xs)[m := a] = replicate m 0 @ a # xs" for xs a
  proof -
    have "replicate (Suc m) (0::int) = replicate m 0 @ [0]"
      by (simp add: replicate_append_same)
    then show ?thesis by (simp add: list_update_append del: replicate_Suc)
  qed
  have range: "[m..<len] = m # [Suc m..<len]"
    using k by (simp add: m_def upt_conv_Cons)
  have "foldl (\<lambda>bits i. bits[len - 1 - i := f i]) (replicate len (0::int)) [0..<Suc k] =
        (replicate (Suc m) 0 @ map (\<lambda>j. f (len - 1 - j)) [Suc m..<len])[m := f k]"
    using Suc k by (simp add: m)
  also have "\<dots> = replicate m 0 @ map (\<lambda>j. f (len - 1 - j)) [m..<len]"
    by (simp only: upd range list.map m)
  finally show ?case by (simp add: m)
qed

lemma numberToBits_map:
  "numberToBits v len = map (\<lambda>j. js_and (js_sar v (len - 1 - j)) 1) [0..<len]"
  unfolding numberToBits_def using numberToBits_loop [of len len] by simp

lemma length_numberToBits: "length (numberToBits v len) = len"
  by (simp add: numberToBits_map)

lemma numberToBits_small:
  assumes "0 \<le> v" "v < 2 ^ 31" "len \<le> 32"
  shows "numberToBits v len = map (\<lambda>j. (v div 2 ^ (len - 1 - j)) mod 2) [0..<len]"
  unfolding numberToBits_map using assms by (intro map_cong refl bit_of_small) auto

lemma bitsToNumber_snoc:
  "bitsToNumber (bits @ [b]) = js_or (js_shl (bitsToNumber bits) 1) (js_and b 1)"
  by (simp add: bitsToNumber_def)

lemma js_step:
  assumes "0 \<le> x" "x < 2 ^ 30" "b = 0 \<or> b = 1"
  shows "js_or (js_shl x 1) (js_and b 1) = 2 * x + b"
proof -
  have x: "ToInt32 x = x" using assms by (intro ToInt32_id) auto
  have x2: "ToInt32 (x * 2) = x * 2" using assms by (intro ToInt32_id) auto
  have shl: "js_shl x 1 = 2 * x" by (simp add: js_shl_def x x2)
  have b: "js_and b 1 = b" using assms(3) by (auto simp: js_and_1 ToInt32_id)
  have b': "ToInt32 b = b" using assms(3) by (auto simp: ToInt32_id)
  have "js_or (2 * x) b = 2 * x + b"
    using assms(3) x2 b' by (auto simp: js_or_def or_one_eq mult.commute)
  then show ?thesis by (simp only: shl b)
qed

lemma bitsToNumber_prefix:
  assumes "0 \<le> v" "v < 2 ^ 31" "v < 2 ^ len"
  shows "k \<le> len \<Longrightarrow>
         bitsToNumber (map (\<lambda>j. (v div 2 ^ (len - 1 - j)) mod 2) [0..<k]) = v div 2 ^ (len - k)"
proof (induction k)
  case 0
  then show ?case using assms by (simp add: bitsToNumber_def)
next
  case (Suc k)
  then have k: "k < len" by simp
  define m where "m = len - Suc k"
  have m: "len - k = Suc m" "len - 1 - k = m" "len - Suc k = m"
    using k by (simp_all add: m_def)
  let ?x = "v div 2 ^ Suc m"
  have x0: "0 \<le> ?x" using assms(1) by (simp add: pos_imp_zdiv_nonneg_iff)
  have "?x \<le> v div 2" using assms(1) by (simp add: zdiv_mono2 flip: zdiv_zmult2_eq)
  also have "\<dots> < 2 ^ 30" using assms(2) by simp
  finally have x1: "?x < 2 ^ 30" .
  have "bitsToNumber (map (\<lambda>j. (v div 2 ^ (len - 1 - j)) mod 2) [0..<Suc k]) =
        js_or (js_shl ?x 1) (js_and ((v div 2 ^ m) mod 2) 1)"
    using Suc k by (simp add: bitsToNumber_snoc m)
  also have "\<dots> = 2 * ?x + (v div 2 ^ m) mod 2"
    by (rule js_step [OF x0 x1]) auto
  also have "\<dots> = v div 2 ^ m"
  proof -
    have "(2::int) ^ Suc m = 2 ^ m * 2" by simp
    then have "?x = (v div 2 ^ m) div 2"
      by (simp only: zdiv_zmult2_eq)
    then show ?thesis by simp
  qed
  finally show ?case by (simp add: m)
qed

lemma bitsToNumber_numberToBits:
  assumes "0 \<le> v" "v < 2 ^ 31" "v < 2 ^ len" "len \<le> 32"
  shows "bitsToNumber (numberToBits v len) = v"
  using bitsToNumber_prefix [OF assms(1-3), of len] assms by (simp add: numberToBits_small)

subsection \<open>The frame\<close>

lemma foldl_append_concat: "foldl (\<lambda>acc x. acc @ f x) a xs = a @ concat (map f xs)"
  by (induction xs arbitrary: a) simp_all

lemma textToBits_eq:
  "textToBits text =
     numberToBits (int (length (TextEncoder_encode text))) 32 @
     concat (map (\<lambda>b. numberToBits (uint b) 8) (TextEncoder_encode text))"
  by (simp add: textToBits_def Let_def foldl_append_concat LENGTH_PREFIX_BITS_def)

lemma length_concat_chunks:
  "(\<And>x. length (f x) = c) \<Longrightarrow> length (concat (map f xs)) = c * length xs"
  by (induction xs) simp_all

lemma length_textToBits: "length (textToBits text) = 32 + 8 * length (TextEncoder_encode text)"
  by (simp add: textToBits_eq length_numberToBits length_concat_chunks)

lemma chunk_of_concat:
  assumes "\<And>x. length (f x) = c" "i < length xs"
  shows "take c (drop (c * i) (concat (map f xs))) = f (xs ! i)"
  using assms(2)
proof (induction xs arbitrary: i)
  case Nil
  then show ?case by simp
next
  case (Cons x xs)
  show ?case
  proof (cases i)
    case 0
    then show ?thesis using assms(1) by simp
  next
    case (Suc j)
    then have "j < length xs" using Cons.prems by simp
    from Cons.IH [OF this] show ?thesis using assms(1) Suc by simp
  qed
qed

lemma numberToBits_bits: "b \<in> set (numberToBits v len) \<Longrightarrow> b = 0 \<or> b = 1"
  by (auto simp: numberToBits_map js_and_1)

lemma textToBits_bits: "b \<in> set (textToBits text) \<Longrightarrow> b = 0 \<or> b = 1"
  by (auto simp: textToBits_eq dest: numberToBits_bits)

subsection \<open>The write loop and the read loop\<close>

lemma write_loop:
  fixes g :: "byte \<Rightarrow> nat \<Rightarrow> byte"
  shows "length (foldl (\<lambda>d i. d[i * 4 + 2 := g (d ! (i * 4 + 2)) i]) d0 [0..<k]) = length d0 \<and>
     (\<forall>j < length d0. foldl (\<lambda>d i. d[i * 4 + 2 := g (d ! (i * 4 + 2)) i]) d0 [0..<k] ! j =
        (if j mod 4 = 2 \<and> j div 4 < k then g (d0 ! j) (j div 4) else d0 ! j))"
proof (induction k)
  case 0
  then show ?case by simp
next
  case (Suc k)
  let ?d = "foldl (\<lambda>d i. d[i * 4 + 2 := g (d ! (i * 4 + 2)) i]) d0 [0..<k]"
  have len: "length ?d = length d0" using Suc by simp
  have nth: "?d ! j = (if j mod 4 = 2 \<and> j div 4 < k then g (d0 ! j) (j div 4) else d0 ! j)"
    if "j < length d0" for j using Suc that by simp
  have step: "foldl (\<lambda>d i. d[i * 4 + 2 := g (d ! (i * 4 + 2)) i]) d0 [0..<Suc k] =
              ?d[k * 4 + 2 := g (?d ! (k * 4 + 2)) k]"
    by simp
  show ?case
  proof (intro conjI allI impI)
    show "length (foldl (\<lambda>d i. d[i * 4 + 2 := g (d ! (i * 4 + 2)) i]) d0 [0..<Suc k]) = length d0"
      by (simp only: step length_list_update len)
  next
    fix j assume j: "j < length d0"
    show "foldl (\<lambda>d i. d[i * 4 + 2 := g (d ! (i * 4 + 2)) i]) d0 [0..<Suc k] ! j =
        (if j mod 4 = 2 \<and> j div 4 < Suc k then g (d0 ! j) (j div 4) else d0 ! j)"
    proof (cases "j = k * 4 + 2")
      case True
      then have "j mod 4 = 2" "j div 4 = k" by presburger+
      then show ?thesis using j len nth [OF j] True by (simp only: step) simp
    next
      case False
      then have "\<not> (j mod 4 = 2 \<and> j div 4 = k)" by presburger
      then show ?thesis using j len nth [OF j] False
        by (simp only: step) (auto simp: less_Suc_eq)
    qed
  qed
qed

lemma nth_concat_replicate:
  "xs \<noteq> [] \<Longrightarrow> j < n * length xs \<Longrightarrow> concat (replicate n xs) ! j = xs ! (j mod length xs)"
proof (induction n arbitrary: j)
  case 0
  then show ?case by simp
next
  case (Suc n)
  show ?case
  proof (cases "j < length xs")
    case True
    then show ?thesis by (simp add: nth_append)
  next
    case False
    then have "j - length xs < n * length xs" using Suc.prems by simp
    from Suc.IH [OF Suc.prems(1) this] False show ?thesis
      by (simp add: nth_append le_mod_geq)
  qed
qed

lemma length_filled_canvas: "length filled_canvas = 262144"
  by (simp add: filled_canvas_def CANVAS_SIZE_def length_concat sum_list_replicate)

lemma blue_filled_canvas: "i < 65536 \<Longrightarrow> filled_canvas ! (i * 4 + 2) = 0x20"
proof -
  assume "i < 65536"
  then have "i * 4 + 2 < 65536 * length [0x0b, 0x11, 0x20, 0xff :: byte]" by simp
  then have "filled_canvas ! (i * 4 + 2) =
           [0x0b, 0x11, 0x20, 0xff :: byte] ! ((i * 4 + 2) mod length [0x0b, 0x11, 0x20, 0xff :: byte])"
    unfolding filled_canvas_def CANVAS_SIZE_def
    by (intro nth_concat_replicate) simp_all
  moreover have "(i * 4 + 2) mod 4 = 2" by presburger
  ultimately show ?thesis by simp
qed

lemma stego_byte:
  fixes x :: byte
  assumes "b = 0 \<or> b = 1"
  shows "js_and (uint (ToUint8Clamp (js_or (js_and (uint x) 0xfe) b))) 1 = b"
proof -
  define a where "a = uint x AND 0xfe"
  have x: "0 \<le> uint x" "uint x < 2 ^ 31"
    using uint_lt2p [of x] by simp_all
  have a: "0 \<le> a" "a \<le> 254" "even a"
    by (simp_all add: a_def AND_upper2 even_and_iff)
  have and1: "js_and (uint x) 0xfe = a"
    using x by (simp add: js_and_def ToInt32_id a_def)
  have or1: "js_or a b = a + b"
    using assms a by (auto simp: js_or_def ToInt32_id or_one_eq)
  have "uint (ToUint8Clamp (a + b)) = a + b"
    using assms a by (auto simp: ToUint8Clamp_def uint_word_of_int_eq take_bit_int_eq_self)
  moreover have "js_and (a + b) 1 = b"
    using assms a by (auto simp: js_and_1 ToInt32_id)
  ultimately show ?thesis by (simp add: and1 or1)
qed

lemma js_slice_nonneg:
  "0 \<le> a \<Longrightarrow> a \<le> b \<Longrightarrow> js_slice xs a b = take (nat b - nat a) (drop (nat a) xs)"
  by (auto simp: js_slice_def slice_index_def Let_def min_def)

lemma read_after_write:
  assumes bits: "\<And>b. b \<in> set bits \<Longrightarrow> b = 0 \<or> b = 1" and len: "length bits \<le> 65536"
  defines "d \<equiv> foldl (\<lambda>d i. d[i * 4 + 2 :=
                 ToUint8Clamp (js_or (js_and (uint (d ! (i * 4 + 2))) 0xfe) (bits ! i))])
               filled_canvas [0..<length bits]"
  shows "map (\<lambda>i. lsb_at d (i * 4 + 2)) [0..<65536] = bits @ replicate (65536 - length bits) 0"
proof (rule nth_equalityI)
  show "length (map (\<lambda>i. lsb_at d (i * 4 + 2)) [0..<65536]) =
        length (bits @ replicate (65536 - length bits) 0)"
    using len by simp
next
  fix i assume "i < length (map (\<lambda>i. lsb_at d (i * 4 + 2)) [0..<65536])"
  then have i: "i < 65536" by simp
  define j where "j = i * 4 + 2"
  have j: "j < length filled_canvas" using i by (simp add: length_filled_canvas j_def)
  have md: "j mod 4 = 2" "j div 4 = i" unfolding j_def by presburger+
  have blue: "filled_canvas ! j = 0x20" unfolding j_def by (rule blue_filled_canvas [OF i])
  note w = write_loop [of "\<lambda>x i. ToUint8Clamp (js_or (js_and (uint x) 0xfe) (bits ! i))"
      filled_canvas "length bits", folded d_def]
  have dlen: "j < length d" using w j by simp
  have dnth: "d ! j =
      (if i < length bits then ToUint8Clamp (js_or (js_and (uint (0x20::byte)) 0xfe) (bits ! i))
       else 0x20)"
  proof -
    have "d ! j =
      (if j mod 4 = 2 \<and> j div 4 < length bits
       then ToUint8Clamp (js_or (js_and (uint (filled_canvas ! j)) 0xfe) (bits ! (j div 4)))
       else filled_canvas ! j)"
      using w j by blast
    then show ?thesis unfolding md blue by simp
  qed
  have "lsb_at d j = (if i < length bits then bits ! i else 0)"
  proof (cases "i < length bits")
    case True
    then have "bits ! i = 0 \<or> bits ! i = 1" using bits by simp
    from stego_byte [OF this, of "0x20"] True show ?thesis
      by (simp add: lsb_at_def dlen dnth)
  next
    case False
    have "js_and (uint (0x20::byte)) 1 = 0" by (simp add: js_and_1 ToInt32_id)
    then show ?thesis using False by (simp add: lsb_at_def dlen dnth)
  qed
  then have "lsb_at d (i * 4 + 2) = (if i < length bits then bits ! i else 0)"
    by (simp only: j_def)
  then show "map (\<lambda>i. lsb_at d (i * 4 + 2)) [0..<65536] ! i =
             (bits @ replicate (65536 - length bits) 0) ! i"
    using i by (simp add: nth_append)
qed

lemma decode_chunks:
  "map (\<lambda>i. ToUint8 (bitsToNumber
          (js_slice (concat (map (\<lambda>b. numberToBits (uint b) 8) bytes)) (int i * 8) (int i * 8 + 8))))
     [0..<length bytes] = bytes"
proof (rule nth_equalityI)
  show "length (map (\<lambda>i. ToUint8 (bitsToNumber
          (js_slice (concat (map (\<lambda>b. numberToBits (uint b) 8) bytes)) (int i * 8) (int i * 8 + 8))))
     [0..<length bytes]) = length bytes" by simp
next
  fix i assume "i < length (map (\<lambda>i. ToUint8 (bitsToNumber
          (js_slice (concat (map (\<lambda>b. numberToBits (uint b) 8) bytes)) (int i * 8) (int i * 8 + 8))))
     [0..<length bytes])"
  then have i: "i < length bytes" by simp
  have "js_slice (concat (map (\<lambda>b. numberToBits (uint b) 8) bytes)) (int i * 8) (int i * 8 + 8) =
        take 8 (drop (8 * i) (concat (map (\<lambda>b. numberToBits (uint b) 8) bytes)))"
    by (simp add: js_slice_nonneg nat_add_distrib nat_mult_distrib mult.commute)
  also have "\<dots> = numberToBits (uint (bytes ! i)) 8"
    by (rule chunk_of_concat [OF length_numberToBits i])
  finally have "bitsToNumber (js_slice (concat (map (\<lambda>b. numberToBits (uint b) 8) bytes))
                   (int i * 8) (int i * 8 + 8)) = uint (bytes ! i)"
    using uint_lt2p [of "bytes ! i"] by (simp add: bitsToNumber_numberToBits)
  then show "map (\<lambda>i. ToUint8 (bitsToNumber
          (js_slice (concat (map (\<lambda>b. numberToBits (uint b) 8) bytes)) (int i * 8) (int i * 8 + 8))))
     [0..<length bytes] ! i = bytes ! i"
    using i by (simp add: ToUint8_def)
qed

lemma stego_roundtrip_bytes:
  assumes "32 + 8 * length (TextEncoder_encode text) \<le> 65536"
  shows "\<exists>img. embedTextInImage True text = Inr img \<and>
           extractTextFromImage True img = Inr (TextDecoder_decode (TextEncoder_encode text))"
proof -
  define bytes where "bytes = TextEncoder_encode text"
  define bits where "bits = textToBits text"
  define dataBits where "dataBits = concat (map (\<lambda>b. numberToBits (uint b) 8) bytes)"
  define d where "d = foldl (\<lambda>d i. d[i * 4 + 2 :=
                 ToUint8Clamp (js_or (js_and (uint (d ! (i * 4 + 2))) 0xfe) (bits ! i))])
               filled_canvas [0..<length bits]"
  define img where "img = \<lparr>width = CANVAS_SIZE, height = CANVAS_SIZE, data = d\<rparr>"
  have n: "length bytes \<le> 8188" using assms by (simp add: bytes_def)
  have bits_eq: "bits = numberToBits (int (length bytes)) 32 @ dataBits"
    by (simp add: bits_def textToBits_eq bytes_def dataBits_def)
  have len_data: "length dataBits = 8 * length bytes"
    by (simp add: dataBits_def length_concat_chunks length_numberToBits)
  have len_bits: "length bits = 32 + 8 * length bytes"
    by (simp add: bits_eq len_data length_numberToBits)
  have cap: "length bits \<le> 65536" using n len_bits by simp
  have emb: "embedTextInImage True text = Inr img"
    using cap by (simp add: embedTextInImage_def Let_def CANVAS_SIZE_def img_def d_def bits_def)
  have read: "map (\<lambda>i. lsb_at d (i * 4 + 2)) [0..<65536] = bits @ replicate (65536 - length bits) 0"
    unfolding d_def by (rule read_after_write [OF _ cap]) (simp add: bits_def textToBits_bits)
  define rest where "rest = replicate (65536 - length bits) (0::int)"
  have all: "carrier_bits img = numberToBits (int (length bytes)) 32 @ dataBits @ rest"
    using read by (simp add: carrier_bits_def img_def CANVAS_SIZE_def bits_eq rest_def)
  have prefix: "js_slice (numberToBits (int (length bytes)) 32 @ dataBits @ rest) 0 (int LENGTH_PREFIX_BITS) =
                numberToBits (int (length bytes)) 32"
    by (simp add: js_slice_nonneg LENGTH_PREFIX_BITS_def length_numberToBits)
  have plen: "bitsToNumber (numberToBits (int (length bytes)) 32) = int (length bytes)"
    using n by (intro bitsToNumber_numberToBits) simp_all
  have pbits: "js_slice (numberToBits (int (length bytes)) 32 @ dataBits @ rest) (int LENGTH_PREFIX_BITS)
                 (int LENGTH_PREFIX_BITS + int (length bytes) * 8) = dataBits"
    by (simp add: js_slice_nonneg LENGTH_PREFIX_BITS_def length_numberToBits len_data
        nat_add_distrib nat_mult_distrib mult.commute)
  have "extractTextFromImage True img = Inr (TextDecoder_decode bytes)"
    unfolding extractTextFromImage_def Let_def all prefix plen pbits
    by (simp add: img_def CANVAS_SIZE_def dataBits_def decode_chunks)
  with emb show ?thesis by (auto simp: bytes_def)
qed

subsection \<open>UTF-8: decoding what the encoder wrote\<close>

lemma unat_byte: "n < 256 \<Longrightarrow> unat (of_nat n :: byte) = n"
  by (simp add: unat_of_nat)

lemma unat_unit: "n < 65536 \<Longrightarrow> unat (of_nat n :: code_unit) = n"
  by (simp add: unat_of_nat)

lemma decode_start:
  "utf8_decode cp seen 0 lower upper (b # bs) =
     (let byte = unat b in
        if byte \<le> 0x7F then byte # utf8_decode 0 0 0 0x80 0xBF bs
         else if 0xC2 \<le> byte \<and> byte \<le> 0xDF then utf8_decode (byte mod 0x20) 0 1 0x80 0xBF bs
         else if 0xE0 \<le> byte \<and> byte \<le> 0xEF then
           utf8_decode (byte mod 0x10) 0 2
             (if byte = 0xE0 then 0xA0 else 0x80) (if byte = 0xED then 0x9F else 0xBF) bs
         else if 0xF0 \<le> byte \<and> byte \<le> 0xF4 then
           utf8_decode (byte mod 8) 0 3
             (if byte = 0xF0 then 0x90 else 0x80) (if byte = 0xF4 then 0x8F else 0xBF) bs
         else 0xFFFD # utf8_decode 0 0 0 0x80 0xBF bs)"
  by (subst utf8_decode.simps) simp

lemma decode_cont:
  "needed \<noteq> 0 \<Longrightarrow> lower \<le> unat b \<Longrightarrow> unat b \<le> upper \<Longrightarrow>
   utf8_decode cp seen needed lower upper (b # bs) =
     (if seen + 1 \<noteq> needed then
        utf8_decode (cp * 0x40 + unat b mod 0x40) (seen + 1) needed 0x80 0xBF bs
      else (cp * 0x40 + unat b mod 0x40) # utf8_decode 0 0 0 0x80 0xBF bs)"
  by (subst utf8_decode.simps) (simp add: Let_def)

lemma mod_off: "a < m \<Longrightarrow> (a + k * m) mod m = (a::nat)"
  by simp

lemma rev_upt_small: "rev [0..<1] = [0]" "rev [0..<2] = [1, 0]" "rev [0..<3] = [2, 1, 0]"
  by (simp_all add: numeral_2_eq_2 numeral_3_eq_3)

lemma encode_1: "c \<le> 0x7F \<Longrightarrow> utf8_encode_code_point c = [of_nat c]"
  by (simp add: utf8_encode_code_point_def)

lemma encode_2:
  "0x7F < c \<Longrightarrow> c \<le> 0x7FF \<Longrightarrow>
   utf8_encode_code_point c = [of_nat (c div 64 + 192), of_nat (128 + c mod 64)]"
  by (simp add: utf8_encode_code_point_def rev_upt_small)

lemma encode_3:
  "0x7FF < c \<Longrightarrow> c \<le> 0xFFFF \<Longrightarrow>
   utf8_encode_code_point c =
     [of_nat (c div 4096 + 224), of_nat (128 + c div 64 mod 64), of_nat (128 + c mod 64)]"
  by (simp add: utf8_encode_code_point_def rev_upt_small)

lemma encode_4:
  "0xFFFF < c \<Longrightarrow>
   utf8_encode_code_point c =
     [of_nat (c div 262144 + 240), of_nat (128 + c div 4096 mod 64),
      of_nat (128 + c div 64 mod 64), of_nat (128 + c mod 64)]"
  by (simp add: utf8_encode_code_point_def rev_upt_small)

lemma lead_1:
  "unat b \<le> 0x7F \<Longrightarrow>
   utf8_decode cp seen 0 lower upper (b # bs) = unat b # utf8_decode 0 0 0 0x80 0xBF bs"
  by (simp add: decode_start)

lemma lead_2:
  assumes "unat b = q + 192" "2 \<le> q" "q < 32"
  shows "utf8_decode cp seen 0 lower upper (b # bs) = utf8_decode q 0 1 0x80 0xBF bs"
proof -
  have "(q + 192) mod 32 = q" using mod_off [of q 32 6] assms by simp
  then show ?thesis using assms by (simp add: decode_start)
qed

lemma lead_3:
  assumes "unat b = p + 224" "p < 16"
  shows "utf8_decode cp seen 0 lower upper (b # bs) =
         utf8_decode p 0 2 (if p = 0 then 0xA0 else 0x80) (if p = 13 then 0x9F else 0xBF) bs"
proof -
  have "(p + 224) mod 16 = p" using mod_off [of p 16 14] assms by simp
  then show ?thesis using assms by (simp add: decode_start)
qed

lemma lead_4:
  assumes "unat b = t + 240" "t < 5"
  shows "utf8_decode cp seen 0 lower upper (b # bs) =
         utf8_decode t 0 3 (if t = 0 then 0x90 else 0x80) (if t = 4 then 0x8F else 0xBF) bs"
proof -
  have "(t + 240) mod 8 = t" using mod_off [of t 8 30] assms by simp
  then show ?thesis using assms by (simp add: decode_start)
qed

lemma trail_more:
  assumes "unat b = 128 + r" "r < 64" "seen' = seen + 1" "seen' \<noteq> needed" "needed \<noteq> 0"
    "lower \<le> 128 + r" "128 + r \<le> upper"
  shows "utf8_decode cp seen needed lower upper (b # bs) =
         utf8_decode (cp * 64 + r) seen' needed 0x80 0xBF bs"
proof -
  have "(128 + r) mod 64 = r" using mod_off [of r 64 2] assms by (simp add: add.commute)
  then show ?thesis using assms by (simp add: decode_cont)
qed

lemma trail_last:
  assumes "unat b = 128 + r" "r < 64" "seen + 1 = needed" "lower \<le> 128 + r" "128 + r \<le> upper"
  shows "utf8_decode cp seen needed lower upper (b # bs) =
         (cp * 64 + r) # utf8_decode 0 0 0 0x80 0xBF bs"
proof -
  have "(128 + r) mod 64 = r" using mod_off [of r 64 2] assms by (simp add: add.commute)
  then show ?thesis using assms by (subst decode_cont) auto
qed

lemma decode_encode_1:
  assumes "c \<le> 0x7F"
  shows "utf8_decode 0 0 0 0x80 0xBF (utf8_encode_code_point c @ rest) =
         c # utf8_decode 0 0 0 0x80 0xBF rest"
  using assms by (simp add: encode_1 lead_1 unat_byte)

lemma decode_encode_2:
  assumes "0x7F < c" "c \<le> 0x7FF"
  shows "utf8_decode 0 0 0 0x80 0xBF (utf8_encode_code_point c @ rest) =
         c # utf8_decode 0 0 0 0x80 0xBF rest"
proof -
  define q where "q = c div 64"
  define r where "r = c mod 64"
  define b0 :: byte where "b0 = of_nat (q + 192)"
  define b1 :: byte where "b1 = of_nat (128 + r)"
  have c: "q * 64 + r = c" by (simp add: q_def r_def)
  have r: "r < 64" by (simp add: r_def)
  have q: "2 \<le> q" "q < 32" using assms c r by linarith+
  have enc: "utf8_encode_code_point c = [b0, b1]"
    using assms by (simp only: encode_2 b0_def b1_def q_def r_def)
  have u0: "unat b0 = q + 192" unfolding b0_def using q by (intro unat_byte) simp
  have u1: "unat b1 = 128 + r" unfolding b1_def using r by (intro unat_byte) simp
  have "utf8_decode 0 0 0 0x80 0xBF (b0 # b1 # rest) = utf8_decode q 0 1 0x80 0xBF (b1 # rest)"
    by (rule lead_2 [OF u0 q])
  also have "\<dots> = (q * 64 + r) # utf8_decode 0 0 0 0x80 0xBF rest"
    using r by (intro trail_last [OF u1 r]) simp_all
  finally show ?thesis by (simp only: enc c append_Cons append_Nil)
qed

lemma decode_encode_3:
  assumes "0x7FF < c" "c \<le> 0xFFFF" "\<not> is_surrogate c"
  shows "utf8_decode 0 0 0 0x80 0xBF (utf8_encode_code_point c @ rest) =
         c # utf8_decode 0 0 0 0x80 0xBF rest"
proof -
  define c1 where "c1 = c div 64"
  define r where "r = c mod 64"
  define p where "p = c1 div 64"
  define q where "q = c1 mod 64"
  define b0 :: byte where "b0 = of_nat (p + 224)"
  define b1 :: byte where "b1 = of_nat (128 + q)"
  define b2 :: byte where "b2 = of_nat (128 + r)"
  have e0: "c1 * 64 + r = c" by (simp add: c1_def r_def)
  have e1: "p * 64 + q = c1" by (simp add: p_def q_def)
  have c: "(p * 64 + q) * 64 + r = c" by (simp add: e0 e1)
  have q: "q < 64" by (simp add: q_def)
  have r: "r < 64" by (simp add: r_def)
  have p: "p < 16" using assms e0 e1 q r by linarith
  have lo: "(if p = 0 then 0xA0 else 0x80) \<le> 128 + q" using assms(1) e0 e1 q r by auto
  have hi: "128 + q \<le> (if p = 13 then 0x9F else 0xBF)"
    using assms(2,3) e0 e1 q r unfolding is_surrogate_def by auto
  have d4096: "c div 4096 = p"
    unfolding p_def c1_def by (simp add: div_mult2_eq)
  have enc: "utf8_encode_code_point c = [b0, b1, b2]"
    using assms(1,2) by (simp only: encode_3 d4096 b0_def b1_def b2_def q_def r_def c1_def)
  have u0: "unat b0 = p + 224" unfolding b0_def using p by (intro unat_byte) simp
  have u1: "unat b1 = 128 + q" unfolding b1_def using q by (intro unat_byte) simp
  have u2: "unat b2 = 128 + r" unfolding b2_def using r by (intro unat_byte) simp
  have "utf8_decode 0 0 0 0x80 0xBF (b0 # b1 # b2 # rest) =
        utf8_decode p 0 2 (if p = 0 then 0xA0 else 0x80) (if p = 13 then 0x9F else 0xBF)
          (b1 # b2 # rest)"
    by (rule lead_3 [OF u0 p])
  also have "\<dots> = utf8_decode (p * 64 + q) 1 2 0x80 0xBF (b2 # rest)"
    by (rule trail_more [OF u1 q _ _ _ lo hi]) simp_all
  also have "\<dots> = ((p * 64 + q) * 64 + r) # utf8_decode 0 0 0 0x80 0xBF rest"
    using r by (intro trail_last [OF u2 r]) simp_all
  finally show ?thesis by (simp only: enc c append_Cons append_Nil)
qed

lemma decode_encode_4:
  assumes "0xFFFF < c" "c < 0x110000"
  shows "utf8_decode 0 0 0 0x80 0xBF (utf8_encode_code_point c @ rest) =
         c # utf8_decode 0 0 0 0x80 0xBF rest"
proof -
  define c1 where "c1 = c div 64"
  define r where "r = c mod 64"
  define c2 where "c2 = c1 div 64"
  define q where "q = c1 mod 64"
  define t where "t = c2 div 64"
  define p where "p = c2 mod 64"
  define b0 :: byte where "b0 = of_nat (t + 240)"
  define b1 :: byte where "b1 = of_nat (128 + p)"
  define b2 :: byte where "b2 = of_nat (128 + q)"
  define b3 :: byte where "b3 = of_nat (128 + r)"
  have e0: "c1 * 64 + r = c" by (simp add: c1_def r_def)
  have e1: "c2 * 64 + q = c1" by (simp add: c2_def q_def)
  have e2: "t * 64 + p = c2" by (simp add: t_def p_def)
  have c: "((t * 64 + p) * 64 + q) * 64 + r = c" by (simp add: e0 e1 e2)
  have p: "p < 64" by (simp add: p_def)
  have q: "q < 64" by (simp add: q_def)
  have r: "r < 64" by (simp add: r_def)
  have t: "t < 5" using assms e0 e1 e2 p q r by linarith
  have lo: "(if t = 0 then 0x90 else 0x80) \<le> 128 + p" using assms(1) e0 e1 e2 p q r by auto
  have hi: "128 + p \<le> (if t = 4 then 0x8F else 0xBF)" using assms(2) e0 e1 e2 p q r by auto
  have d4096: "c div 4096 = c2"
    unfolding c2_def c1_def by (simp add: div_mult2_eq)
  have d262144: "c div 262144 = t"
    unfolding t_def c2_def c1_def by (simp add: div_mult2_eq)
  have enc: "utf8_encode_code_point c = [b0, b1, b2, b3]"
    using assms(1)
    by (simp only: encode_4 d4096 d262144 b0_def b1_def b2_def b3_def p_def q_def r_def c1_def)
  have u0: "unat b0 = t + 240" unfolding b0_def using t by (intro unat_byte) simp
  have u1: "unat b1 = 128 + p" unfolding b1_def using p by (intro unat_byte) simp
  have u2: "unat b2 = 128 + q" unfolding b2_def using q by (intro unat_byte) simp
  have u3: "unat b3 = 128 + r" unfolding b3_def using r by (intro unat_byte) simp
  have "utf8_decode 0 0 0 0x80 0xBF (b0 # b1 # b2 # b3 # rest) =
        utf8_decode t 0 3 (if t = 0 then 0x90 else 0x80) (if t = 4 then 0x8F else 0xBF)
          (b1 # b2 # b3 # rest)"
    by (rule lead_4 [OF u0 t])
  also have "\<dots> = utf8_decode (t * 64 + p) 1 3 0x80 0xBF (b2 # b3 # rest)"
    by (rule trail_more [OF u1 p _ _ _ lo hi]) simp_all
  also have "\<dots> = utf8_decode ((t * 64 + p) * 64 + q) 2 3 0x80 0xBF (b3 # rest)"
    using q by (intro trail_more [OF u2 q]) simp_all
  also have "\<dots> = (((t * 64 + p) * 64 + q) * 64 + r) # utf8_decode 0 0 0 0x80 0xBF rest"
    using r by (intro trail_last [OF u3 r]) simp_all
  finally show ?thesis by (simp only: enc c append_Cons append_Nil)
qed

lemma decode_encode_code_point:
  assumes "is_scalar c"
  shows "utf8_decode 0 0 0 0x80 0xBF (utf8_encode_code_point c @ rest) =
         c # utf8_decode 0 0 0 0x80 0xBF rest"
proof -
  consider "c \<le> 0x7F" | "0x7F < c" "c \<le> 0x7FF" | "0x7FF < c" "c \<le> 0xFFFF" | "0xFFFF < c"
    by linarith
  then show ?thesis
    using assms decode_encode_1 decode_encode_2 decode_encode_3 decode_encode_4
    by cases (auto simp: is_scalar_def)
qed

lemma decode_encode_scalars:
  "(\<And>c. c \<in> set cps \<Longrightarrow> is_scalar c) \<Longrightarrow>
   utf8_decode 0 0 0 0x80 0xBF (concat (map utf8_encode_code_point cps)) = cps"
  by (induction cps) (simp_all add: decode_encode_code_point utf8_decode.simps(1))

subsection \<open>Strings: UTF-16 code units and scalar values\<close>

lemma unit_lt: "unat (u :: code_unit) < 65536"
  using unsigned_less [of u, where 'a = nat] by simp

lemma pair_code_point:
  assumes "is_high_surrogate h" "is_low_surrogate l"
  defines "cp \<equiv> 0x10000 + (h - 0xD800) * 0x400 + (l - 0xDC00)"
  shows "is_scalar cp" "cp \<noteq> 0xFEFF" "\<not> cp < 0x10000"
    "0xD800 + (cp - 0x10000) div 0x400 = h" "0xDC00 + (cp - 0x10000) mod 0x400 = l"
proof -
  define a where "a = h - 0xD800"
  define b where "b = l - 0xDC00"
  have a: "a < 0x400" "h = 0xD800 + a" using assms(1) by (auto simp: is_high_surrogate_def a_def)
  have b: "b < 0x400" "l = 0xDC00 + b" using assms(2) by (auto simp: is_low_surrogate_def b_def)
  have cp: "cp = 0x10000 + (a * 0x400 + b)" by (simp add: cp_def a_def b_def)
  show "is_scalar cp" using a b by (simp add: cp is_scalar_def is_surrogate_def)
  show "cp \<noteq> 0xFEFF" by (simp add: cp)
  show "\<not> cp < 0x10000" by (simp add: cp)
  have "(a * 0x400 + b) div 0x400 = a" "(a * 0x400 + b) mod 0x400 = b" using b(1) by simp_all
  then show "0xD800 + (cp - 0x10000) div 0x400 = h" "0xDC00 + (cp - 0x10000) mod 0x400 = l"
    using a b by (simp_all add: cp)
qed

lemma scalars_of_wellformed:
  "isWellFormed s \<Longrightarrow> c \<in> set (to_scalar_values s) \<Longrightarrow> is_scalar c"
proof (induction s rule: to_scalar_values.induct)
  case 1
  then show ?case by simp
next
  case (2 u)
  then show ?case using unit_lt [of u] by (simp add: is_scalar_def)
next
  case (3 u v rest)
  show ?case
  proof (cases "is_high_surrogate (unat u) \<and> is_low_surrogate (unat v)")
    case True
    then show ?thesis using 3 pair_code_point(1) [of "unat u" "unat v"] by auto
  next
    case False
    have "isWellFormed (v # rest)" "\<not> is_surrogate (unat u)"
      using 3(3) by (simp_all add: False)
    then show ?thesis using 3(2,4) False unit_lt [of u] by (auto simp: False is_scalar_def)
  qed
qed

lemma utf16_of_scalars:
  "isWellFormed s \<Longrightarrow> concat (map utf16_units (to_scalar_values s)) = s"
proof (induction s rule: to_scalar_values.induct)
  case 1
  then show ?case by simp
next
  case (2 u)
  then show ?case using unit_lt [of u] by (simp add: utf16_units_def)
next
  case (3 u v rest)
  show ?case
  proof (cases "is_high_surrogate (unat u) \<and> is_low_surrogate (unat v)")
    case True
    then have hl: "is_high_surrogate (unat u)" "is_low_surrogate (unat v)" by simp_all
    have "utf16_units (0x10000 + (unat u - 0xD800) * 0x400 + (unat v - 0xDC00)) = [u, v]"
      unfolding utf16_units_def
      by (simp only: pair_code_point(3-5) [OF hl] if_False of_nat_unat) simp
    then show ?thesis using 3 True by simp
  next
    case False
    have wf: "isWellFormed (v # rest)" "\<not> is_surrogate (unat u)"
      using 3(3) by (simp_all add: False)
    have "to_scalar_values (u # v # rest) = unat u # to_scalar_values (v # rest)"
      using wf by (simp add: False)
    moreover have "utf16_units (unat u) = [u]"
      using unit_lt [of u] by (simp add: utf16_units_def)
    ultimately show ?thesis using 3(2) [OF False wf(1)] by simp
  qed
qed

lemma BOM_of_scalars:
  "to_scalar_values s = c # cs \<Longrightarrow> c = 0xFEFF \<Longrightarrow> has_leading_BOM s"
proof (induction s rule: to_scalar_values.induct)
  case 1
  then show ?case by simp
next
  case (2 u)
  then have "unat u = 0xFEFF" by (simp split: if_splits)
  then have "u = 0xFEFF" by (metis of_nat_unat ucast_id of_nat_numeral)
  then show ?case by (simp add: has_leading_BOM_def)
next
  case (3 u v rest)
  show ?case
  proof (cases "is_high_surrogate (unat u) \<and> is_low_surrogate (unat v)")
    case True
    then show ?thesis using 3(3,4) pair_code_point(2) [of "unat u" "unat v"] by simp
  next
    case False
    then have "unat u = 0xFEFF" using 3(3,4) by (simp split: if_splits)
    then have "u = 0xFEFF" by (metis of_nat_unat ucast_id of_nat_numeral)
    then show ?thesis by (simp add: has_leading_BOM_def)
  qed
qed

lemma text_roundtrip:
  assumes "isWellFormed s" "\<not> has_leading_BOM s"
  shows "TextDecoder_decode (TextEncoder_encode s) = s"
proof -
  have dec: "utf8_decode 0 0 0 0x80 0xBF (TextEncoder_encode s) = to_scalar_values s"
    unfolding TextEncoder_encode_def
    by (rule decode_encode_scalars) (rule scalars_of_wellformed [OF assms(1)])
  have "(case to_scalar_values s of [] \<Rightarrow> [] | c # rest \<Rightarrow>
           if c = 0xFEFF then rest else to_scalar_values s) = to_scalar_values s"
    using BOM_of_scalars [of s] assms(2) by (auto split: list.splits)
  then show ?thesis
    by (simp add: TextDecoder_decode_def Let_def dec utf16_of_scalars [OF assms(1)])
qed

lemma embed_then_extract_bytes:
  assumes "32 + 8 * length (TextEncoder_encode text) \<le> 65536"
  shows "embed_then_extract True text = Inr (TextDecoder_decode (TextEncoder_encode text))"
  using stego_roundtrip_bytes [OF assms] by (auto simp: embed_then_extract_def)

subsection \<open>What the round trip returns\<close>

lemma unit_scalar: "is_scalar (if is_surrogate (unat (u :: code_unit)) then 0xFFFD else unat u)"
  using unit_lt [of u] by (simp add: is_scalar_def is_surrogate_def)

lemma scalars_always: "c \<in> set (to_scalar_values s) \<Longrightarrow> is_scalar c"
proof (induction s rule: to_scalar_values.induct)
  case 1
  then show ?case by simp
next
  case (2 u)
  then show ?case using unit_scalar [of u] by simp
next
  case (3 u v rest)
  show ?case
  proof (cases "is_high_surrogate (unat u) \<and> is_low_surrogate (unat v)")
    case True
    then show ?thesis using 3 pair_code_point(1) [of "unat u" "unat v"] by auto
  next
    case False
    then show ?thesis using 3(2,3) unit_scalar [of u]
      by (auto simp: False)
  qed
qed

lemma decode_encode_text:
  "utf8_decode 0 0 0 0x80 0xBF (TextEncoder_encode s) = to_scalar_values s"
  unfolding TextEncoder_encode_def by (rule decode_encode_scalars) (rule scalars_always)

lemma embed_then_extract_text:
  assumes "32 + 8 * length (TextEncoder_encode text) \<le> 65536"
  shows "embed_then_extract True text =
         Inr (concat (map utf16_units
           (case to_scalar_values text of [] \<Rightarrow> []
            | c # rest \<Rightarrow> if c = 0xFEFF then rest else to_scalar_values text)))"
  by (simp add: embed_then_extract_bytes [OF assms] TextDecoder_decode_def Let_def decode_encode_text)

lemma encode_ascii:
  "(\<And>u. u \<in> set s \<Longrightarrow> unat u \<le> 0x7F) \<Longrightarrow> TextEncoder_encode s = map ucast s"
proof (induction s rule: to_scalar_values.induct)
  case 1
  then show ?case by (simp add: TextEncoder_encode_def)
next
  case (2 u)
  then have "unat u \<le> 0x7F" by simp
  then show ?case
    by (simp add: TextEncoder_encode_def is_surrogate_def encode_1)
next
  case (3 u v rest)
  then have u: "unat u \<le> 0x7F" by simp
  then have "to_scalar_values (u # v # rest) = unat u # to_scalar_values (v # rest)"
    by (simp add: is_surrogate_def is_high_surrogate_def)
  moreover have "TextEncoder_encode (v # rest) = map ucast (v # rest)"
    using 3 u by (simp add: is_high_surrogate_def)
  ultimately show ?case using u
    by (simp add: TextEncoder_encode_def encode_1)
qed


subsection \<open>The example carriers\<close>








section \<open>Main results on the codec\<close>

text \<open>
  C1 (as amended). In a browser that gives the canvas a 2D context, for every text \<open>P\<close>
  that is well formed (no surrogate outside a pair), does not begin with U+FEFF, and whose
  UTF-8 encoding has \<open>n\<close> bytes with \<open>32 + 8 * n \<le> 65536\<close>, extracting from the carrier
  that the embedding of \<open>P\<close> produced returns \<open>P\<close> exactly.
\<close>

theorem stego_roundtrip_wellformed:
  assumes "has2d" "isWellFormed P" "\<not> has_leading_BOM P"
    and "32 + 8 * length (TextEncoder_encode P) \<le> 65536"
  shows "embed_then_extract has2d P = Inr P"
  using assms(1) embed_then_extract_bytes [OF assms(4)] text_roundtrip [OF assms(2,3)] by simp

theorem stego_roundtrip_wellformed_witness:
  "isWellFormed [0x68, 0xE9, 0x20AC, 0xD83D, 0xDE00] \<and>
   \<not> has_leading_BOM [0x68, 0xE9, 0x20AC, 0xD83D, 0xDE00] \<and>
   32 + 8 * length (TextEncoder_encode [0x68, 0xE9, 0x20AC, 0xD83D, 0xDE00]) \<le> 65536 \<and>
   embed_then_extract True [0x68, 0xE9, 0x20AC, 0xD83D, 0xDE00] =
     Inr [0x68, 0xE9, 0x20AC, 0xD83D, 0xDE00]"
proof -
  have wf: "isWellFormed [0x68, 0xE9, 0x20AC, 0xD83D, 0xDE00]"
    by (simp add: is_surrogate_def is_high_surrogate_def is_low_surrogate_def)
  have bom: "\<not> has_leading_BOM [0x68, 0xE9, 0x20AC, 0xD83D, 0xDE00]"
    by (simp add: has_leading_BOM_def)
  have "TextEncoder_encode [0x68, 0xE9, 0x20AC, 0xD83D, 0xDE00] =
        [0x68, 0xC3, 0xA9, 0xE2, 0x82, 0xAC, 0xF0, 0x9F, 0x98, 0x80]"
    by (simp add: TextEncoder_encode_def is_surrogate_def is_high_surrogate_def
        is_low_surrogate_def encode_1 encode_2 encode_3 encode_4)
  then have cap: "32 + 8 * length (TextEncoder_encode [0x68, 0xE9, 0x20AC, 0xD83D, 0xDE00]) \<le> 65536"
    by simp
  from wf bom cap stego_roundtrip_wellformed [OF TrueI wf bom cap] show ?thesis by blast
qed

text \<open>
  Counterexample to C1 as the specification states it, for every text payload: there
  are two kinds of text that \<^verbatim>\<open>TextEncoder\<close> and \<^verbatim>\<open>TextDecoder\<close> do not give back.
  The one-unit text U+FEFF (three bytes) comes back empty, and the lone surrogate U+D800
  comes back as U+FFFD.
\<close>

theorem stego_roundtrip_counterexample:
  "32 + 8 * length (TextEncoder_encode [0xFEFF]) \<le> 65536 \<and>
   embed_then_extract True [0xFEFF] = Inr [] \<and>
   32 + 8 * length (TextEncoder_encode [0xD800]) \<le> 65536 \<and>
   embed_then_extract True [0xD800] = Inr [0xFFFD]"
proof -
  have l1: "length (TextEncoder_encode [0xFEFF]) = 3"
    by (simp add: TextEncoder_encode_def is_surrogate_def encode_3)
  have l2: "length (TextEncoder_encode [0xD800]) = 3"
    by (simp add: TextEncoder_encode_def is_surrogate_def encode_3)
  have c1: "32 + 8 * length (TextEncoder_encode [0xFEFF]) \<le> 65536" by (simp add: l1)
  have c2: "32 + 8 * length (TextEncoder_encode [0xD800]) \<le> 65536" by (simp add: l2)
  have r1: "embed_then_extract True [0xFEFF] = Inr []"
    by (simp add: embed_then_extract_text [OF c1] is_surrogate_def)
  have r2: "embed_then_extract True [0xD800] = Inr [0xFFFD]"
    by (simp add: embed_then_extract_text [OF c2] is_surrogate_def utf16_units_def)
  from c1 r1 c2 r2 show ?thesis by blast
qed

text \<open>
  C2. In a browser that gives the canvas a 2D context, \<^verbatim>\<open>embedTextInImage\<close> fails with
  the capacity error exactly when \<open>32 + 8 * n\<close> exceeds \<open>256 * 256 = 65536\<close>, \<open>n\<close> being the
  number of bytes of the UTF-8 encoding of the text, and returns a carrier exactly when it
  does not. So every text of 8188 bytes is embedded and every text of 8189 bytes is
  refused; a refused call returns the error alone, no carrier.
\<close>

theorem embed_capacity:
  assumes "has2d"
  shows "(embedTextInImage has2d P = Inl MessageTooLong \<longleftrightarrow>
            CANVAS_SIZE * CANVAS_SIZE < 32 + 8 * length (TextEncoder_encode P)) \<and>
         ((\<exists>img. embedTextInImage has2d P = Inr img) \<longleftrightarrow>
            32 + 8 * length (TextEncoder_encode P) \<le> CANVAS_SIZE * CANVAS_SIZE) \<and>
         CANVAS_SIZE * CANVAS_SIZE = 65536 \<and>
         (length (TextEncoder_encode P) = 8188 \<longrightarrow> (\<exists>img. embedTextInImage has2d P = Inr img)) \<and>
         (length (TextEncoder_encode P) = 8189 \<longrightarrow> embedTextInImage has2d P = Inl MessageTooLong)"
  using assms
  by (simp add: embedTextInImage_def Let_def length_textToBits CANVAS_SIZE_def)

theorem embed_capacity_witness:
  "embedTextInImage True (replicate 8188 0x41) \<noteq> Inl MessageTooLong \<and>
   (\<exists>img. embedTextInImage True (replicate 8188 0x41) = Inr img) \<and>
   embedTextInImage True (replicate 8189 0x41) = Inl MessageTooLong"
proof -
  have "TextEncoder_encode (replicate n 0x41) = map ucast (replicate n (0x41 :: code_unit))" for n
    by (rule encode_ascii) simp
  then have len: "length (TextEncoder_encode (replicate n 0x41)) = n" for n
    by simp
  note a = embed_capacity [of True "replicate 8188 0x41", OF TrueI, unfolded len]
  note b = embed_capacity [of True "replicate 8189 0x41", OF TrueI, unfolded len]
  from a b show ?thesis by simp
qed





section \<open>Properties of base64\<close>

lemma b64_char_unat:
  assumes "k < 64"
  shows "unat (b64_char k) =
           (if k < 26 then 0x41 + k else if k < 52 then 0x61 + (k - 26)
            else if k < 62 then 0x30 + (k - 52) else if k = 62 then 0x2B else 0x2F)"
  unfolding b64_char_def using assms by (intro unat_unit) auto

lemma sextet_of_b64_char: "k < 64 \<Longrightarrow> sextet_of (b64_char k) = Some k"
  by (auto simp: sextet_of_def b64_char_unat Let_def)

lemma b64_char_not_pad: "k < 64 \<Longrightarrow> b64_char k \<noteq> 0x3D"
proof
  assume k: "k < 64" and "b64_char k = 0x3D"
  then have "unat (b64_char k) = 0x3D" by simp
  then show False using k by (simp add: b64_char_unat split: if_splits)
qed

lemma b64_char_not_space: "k < 64 \<Longrightarrow> \<not> is_ascii_whitespace (b64_char k)"
proof
  assume k: "k < 64" and "is_ascii_whitespace (b64_char k)"
  then have "unat (b64_char k) \<in> {0x09, 0x0A, 0x0C, 0x0D, 0x20}"
    by (auto simp: is_ascii_whitespace_def)
  then show False using k by (auto simp: b64_char_unat split: if_splits)
qed

lemma byte_lt: "unat (a :: byte) < 256"
  using unsigned_less [of a, where 'a = nat] by simp

lemma sextets_of_bytes_bound: "k \<in> set (sextets_of_bytes bs) \<Longrightarrow> k < 64"
proof (induction bs rule: sextets_of_bytes.induct)
  case 1
  then show ?case by simp
next
  case (2 a)
  then show ?case using byte_lt [of a] by (auto simp: Let_def div_less_iff_less_mult)
next
  case (3 a b)
  have "(unat a * 256 + unat b) * 4 < 64 * 4096" using byte_lt [of a] byte_lt [of b] by simp
  then have "(unat a * 256 + unat b) * 4 div 4096 < 64" by (simp add: div_less_iff_less_mult)
  then show ?case using 3 by (auto simp: Let_def)
next
  case (4 a b c rest)
  have "(unat a * 256 + unat b) * 256 + unat c < 64 * 262144"
    using byte_lt [of a] byte_lt [of b] byte_lt [of c] by simp
  then have "((unat a * 256 + unat b) * 256 + unat c) div 262144 < 64"
    by (simp add: div_less_iff_less_mult)
  then show ?case using 4 by (auto simp: Let_def)
qed

lemma sextet_join: "n div 64 * 64 + n mod 64 = (n::nat)"
  by simp

lemma sextet_join3: "(n div 4096 * 64 + n div 64 mod 64) * 64 + n mod 64 = (n::nat)"
proof -
  have "n div 4096 = n div 64 div 64" by (simp add: div_mult2_eq)
  then show ?thesis by simp
qed

lemma sextet_join4:
  "((n div 262144 * 64 + n div 4096 mod 64) * 64 + n div 64 mod 64) * 64 + n mod 64 = (n::nat)"
proof -
  have "n div 262144 = n div 4096 div 64" by (simp add: div_mult2_eq)
  then have "n div 262144 * 64 + n div 4096 mod 64 = n div 4096" by simp
  then show ?thesis by (simp only: sextet_join3)
qed

lemma decode12: "decode_sextets [n div 64, n mod 64] = [of_nat (n div 16)]"
  by (simp only: decode_sextets.simps Let_def sextet_join)

lemma decode18:
  "decode_sextets [n div 4096, n div 64 mod 64, n mod 64] =
     [of_nat (n div 4 div 256), of_nat (n div 4 mod 256)]"
  by (simp only: decode_sextets.simps Let_def sextet_join3)

lemma decode24:
  "decode_sextets (n div 262144 # n div 4096 mod 64 # n div 64 mod 64 # n mod 64 # rest) =
     of_nat (n div 65536) # of_nat (n div 256 mod 256) # of_nat (n mod 256) # decode_sextets rest"
  by (simp only: decode_sextets.simps Let_def sextet_join4 append_Cons append_Nil)

lemma bytes_split3:
  fixes a b c :: byte
  defines "n \<equiv> (unat a * 256 + unat b) * 256 + unat c"
  shows "of_nat (n div 65536) = a" "of_nat (n div 256 mod 256) = b" "of_nat (n mod 256) = c"
proof -
  define m where "m = unat a * 256 + unat b"
  have lt: "unat a < 256" "unat b < 256" "unat c < 256" by (rule byte_lt)+
  have n: "n = m * 256 + unat c" by (simp only: n_def m_def)
  have n1: "n mod 256 = unat c" "n div 256 = m" unfolding n using lt(3) by simp_all
  have m1: "m mod 256 = unat b" "m div 256 = unat a" unfolding m_def using lt(2) by simp_all
  have "n div 65536 = n div 256 div 256" by (simp add: div_mult2_eq)
  then have n2: "n div 65536 = unat a" by (simp only: n1 m1)
  show "of_nat (n div 65536) = a" "of_nat (n div 256 mod 256) = b" "of_nat (n mod 256) = c"
    by (simp_all only: n1 n2 m1 of_nat_unat ucast_id)
qed

lemma bytes_split2:
  fixes a b :: byte
  defines "n \<equiv> (unat a * 256 + unat b) * 4"
  shows "[of_nat (n div 4 div 256), of_nat (n div 4 mod 256)] = [a, b]"
proof -
  define m where "m = unat a * 256 + unat b"
  have lt: "unat b < 256" by (rule byte_lt)
  have n: "n = m * 4" by (simp only: n_def m_def)
  have n1: "n div 4 = m" unfolding n by simp
  have m1: "m mod 256 = unat b" "m div 256 = unat a" unfolding m_def using lt by simp_all
  show ?thesis by (simp only: n1 m1 of_nat_unat ucast_id)
qed

lemma bytes_split1:
  fixes a :: byte
  shows "[of_nat (unat a * 16 div 16)] = [a]"
  by simp

lemma decode_sextets_of_bytes: "decode_sextets (sextets_of_bytes bs) = bs"
proof (induction bs rule: sextets_of_bytes.induct)
  case 1
  then show ?case by simp
next
  case (2 a)
  show ?case by (simp only: sextets_of_bytes.simps Let_def decode12 bytes_split1)
next
  case (3 a b)
  show ?case by (simp only: sextets_of_bytes.simps Let_def decode18 bytes_split2)
next
  case (4 a b c rest)
  show ?case
    by (simp only: sextets_of_bytes.simps Let_def decode24 bytes_split3 4 append_Cons append_Nil)
qed

lemma base64_encode_sextets:
  "base64_encode bs = map b64_char (sextets_of_bytes bs) @ padding_of_bytes bs"
  by (induction bs rule: sextets_of_bytes.induct) (simp_all add: Let_def)

lemma length_sextets_of_bytes: "length (sextets_of_bytes bs) mod 4 \<noteq> 1"
  by (induction bs rule: sextets_of_bytes.induct) (simp_all add: Let_def)

lemma length_base64_encode: "length (base64_encode bs) mod 4 = 0"
  by (induction bs rule: sextets_of_bytes.induct) (simp_all add: Let_def)

lemma padding_cases:
  "padding_of_bytes bs = [] \<or> padding_of_bytes bs = [0x3D] \<or> padding_of_bytes bs = [0x3D, 0x3D]"
  by (induction bs rule: sextets_of_bytes.induct) simp_all

lemma strip_padding_append:
  assumes "\<And>x. x \<in> set xs \<Longrightarrow> x \<noteq> 0x3D"
    and "pad = [] \<or> pad = [0x3D] \<or> pad = [0x3D, 0x3D]"
  shows "strip_padding (xs @ pad) = xs"
proof (cases "rev xs")
  case Nil
  then show ?thesis using assms(2) by (auto simp: strip_padding_def)
next
  case (Cons u r)
  then have xs: "xs = rev r @ [u]" by (metis rev_rev_ident rev.simps(2))
  have u: "u \<noteq> 0x3D" using assms(1) xs by simp
  show ?thesis
  proof (cases r)
    case Nil
    then show ?thesis using assms(2) u xs by (auto simp: strip_padding_def)
  next
    case (Cons v r')
    then show ?thesis using assms(2) u xs by (auto simp: strip_padding_def)
  qed
qed

lemma sextets_b64_chars: "(\<And>k. k \<in> set ks \<Longrightarrow> k < 64) \<Longrightarrow> sextets (map b64_char ks) = Some ks"
  by (induction ks) (simp_all add: sextet_of_b64_char)

lemma atob_base64_encode: "atob (base64_encode bs) = Inr (map ucast bs)"
proof -
  let ?ks = "sextets_of_bytes bs"
  let ?xs = "map b64_char ?ks"
  have ks: "k < 64" if "k \<in> set ?ks" for k using that by (rule sextets_of_bytes_bound)
  have nows: "filter (\<lambda>u. \<not> is_ascii_whitespace u) (base64_encode bs) = base64_encode bs"
  proof (rule filter_True, rule)
    fix u assume "u \<in> set (base64_encode bs)"
    then have "u \<in> set ?xs \<or> u = 0x3D"
      using padding_cases [of bs] by (auto simp: base64_encode_sextets)
    then show "\<not> is_ascii_whitespace u"
      using ks b64_char_not_space by (auto simp: is_ascii_whitespace_def)
  qed
  have strip: "strip_padding (base64_encode bs) = ?xs"
    unfolding base64_encode_sextets
    using ks b64_char_not_pad by (intro strip_padding_append padding_cases) auto
  have len: "length ?xs mod 4 \<noteq> 1" using length_sextets_of_bytes [of bs] by simp
  have sx: "sextets ?xs = Some ?ks" using ks by (rule sextets_b64_chars)
  show ?thesis
    unfolding atob_def Let_def nows
    using len by (simp add: length_base64_encode strip sx decode_sextets_of_bytes)
qed

lemma fromCharCode_byte: "String_fromCharCode (uint (b :: byte)) = ucast b"
  by (simp add: String_fromCharCode_def)

lemma byte_to_unit_is_up: "is_up (ucast :: byte \<Rightarrow> code_unit)"
  by (simp add: is_up)

lemma uint_ucast_byte: "uint (ucast (b :: byte) :: code_unit) = uint b"
  by (rule uint_up_ucast [OF byte_to_unit_is_up])

lemma unat_ucast_byte: "unat (ucast (b :: byte) :: code_unit) = unat b"
  by (simp only: unat_eq_nat_uint uint_ucast_byte)

lemma ucast_ucast_byte: "(ucast (ucast (b :: byte) :: code_unit) :: byte) = b"
  by (rule ucast_up_ucast_id [OF byte_to_unit_is_up])

lemma ToUint8_ucast_byte: "ToUint8 (uint (ucast (b :: byte) :: code_unit)) = b"
  by (simp add: ToUint8_def uint_ucast_byte)

lemma binary_string:
  "foldl (\<lambda>binary byte. binary @ [String_fromCharCode (uint byte)]) acc (bytes :: byte list) =
     acc @ map ucast bytes"
  by (induction bytes arbitrary: acc) (simp_all add: fromCharCode_byte)

lemma byte_not_gt: "\<not> 0xFF < unat (b :: byte)"
  using byte_lt [of b] by simp

lemma btoa_bytes: "btoa (map ucast (bytes :: byte list)) = Inr (base64_encode bytes)"
  by (simp add: btoa_def unat_ucast_byte byte_not_gt ucast_ucast_byte comp_def)

lemma bufferToBase64_eq: "bufferToBase64 bytes = Inr (base64_encode bytes)"
  using binary_string [of "[]" bytes] by (simp add: bufferToBase64_def btoa_bytes)

lemma base64ToBytes_encode: "base64ToBytes (base64_encode bytes) = Inr bytes"
proof -
  have "map (\<lambda>i. ToUint8 (charCodeAt (map ucast bytes) i)) [0..<length bytes] = bytes"
    by (rule nth_equalityI) (simp_all add: charCodeAt_def ToUint8_ucast_byte)
  then show ?thesis by (simp add: base64ToBytes_def atob_base64_encode)
qed

text \<open>
  C9. For every byte array \<open>b\<close>, \<^verbatim>\<open>bufferToBase64(b)\<close> returns a string, and
  \<^verbatim>\<open>base64ToBytes\<close> of that string returns \<open>b\<close>: neither call throws, and the bytes
  come back unchanged.
\<close>

theorem base64_lossless:
  "base64_roundtrip b = Inr b \<and>
   (\<exists>s. bufferToBase64 b = Inr s \<and> base64ToBytes s = Inr b)"
  by (simp add: base64_roundtrip_def bufferToBase64_eq base64ToBytes_encode)


theorem base64_lossless_witness:
  "base64_roundtrip [0x4d, 0x61, 0x6e, 0xff] = Inr [0x4d, 0x61, 0x6e, 0xff] \<and>
   bufferToBase64 [0x4d, 0x61, 0x6e, 0xff] = Inr [0x54, 0x57, 0x46, 0x75, 0x2F, 0x77, 0x3D, 0x3D]"
proof -
  have "bufferToBase64 [0x4d, 0x61, 0x6e, 0xff] = Inr [0x54, 0x57, 0x46, 0x75, 0x2F, 0x77, 0x3D, 0x3D]"
    by (simp add: bufferToBase64_eq b64_char_def)
  then show ?thesis using base64_lossless [of "[0x4d, 0x61, 0x6e, 0xff]"] by simp
qed

section \<open>Properties of the client pipeline\<close>

lemma ensureDHState_frame:
  "outbox (snd (ensureDHState env f c)) = outbox c"
  "pendingMessages (snd (ensureDHState env f c)) = pendingMessages c"
  "threads (snd (ensureDHState env f c)) = threads c"
  "draft (snd (ensureDHState env f c)) = draft c"
  "status (snd (ensureDHState env f c)) = status c"
  "console (snd (ensureDHState env f c)) = console c"
  "socketRef (snd (ensureDHState env f c)) = socketRef c"
  "g \<noteq> f \<Longrightarrow> sharedKeys (snd (ensureDHState env f c)) g = sharedKeys c g"
  by (simp_all add: ensureDHState_def Let_def split: option.splits)

lemma ensureDHState_state:
  "sharedKeys (snd (ensureDHState env f c)) f = Some (fst (ensureDHState env f c))"
  "sharedKey (fst (ensureDHState env f c)) = sharedKey (state_or_empty c f)"
  "sentPublic (fst (ensureDHState env f c)) = sentPublic (state_or_empty c f)"
  "keyPair (fst (ensureDHState env f c)) =
     (case keyPair (state_or_empty c f) of
        None \<Rightarrow> Some (createKeyPair env (entropy c)) | Some kp \<Rightarrow> Some kp)"
  by (simp_all add: ensureDHState_def Let_def split: option.splits)










lemmas client_eval = handleSendMessage_def ensureSharedKey_def emitPublicKey_def ensureDHState_def
  state_or_empty_def socket_emit_def exportPublicKey_def createKeyPair_def importPublicKey_def
  deriveSharedKey_def handleDhPayload_def deriveSharedSecret_def runPendingMessages_def
  getFriendName_def example_browser_def example_client_def js_trim_def is_js_whitespace_def
  Let_def

lemma example_send:
  "handleSendMessage example_browser example_client =
     example_client
       \<lparr>sharedKeys := [bob \<mapsto> \<lparr>keyPair = Some \<lparr>publicKey = CryptoKey 0, privateKey = CryptoKey 1\<rparr>,
                                sharedKey = None, sentPublic = True\<rparr>],
        status := ''Waiting for shared key exchange'',
        outbox := [DhPublic bob (JString ''jwk'')], entropy := 1\<rparr>"
  by (simp add: client_eval)


lemma example_failed_import:
  "deriveSharedSecret example_browser bob JUndefined example_client =
   (Inl DataError, example_client
       \<lparr>sharedKeys := [bob \<mapsto> \<lparr>keyPair = Some \<lparr>publicKey = CryptoKey 0, privateKey = CryptoKey 1\<rparr>,
                                sharedKey = None, sentPublic = False\<rparr>],
        entropy := 1\<rparr>)"
  by (simp add: client_eval)




text \<open>
  C7 (as amended). When \<^verbatim>\<open>deriveSharedSecret\<close> (the handler of \<^verbatim>\<open>dh-public\<close>) is given a
  peer key that \<^verbatim>\<open>importPublicKey\<close> rejects, the rejection reaches the caller. After any
  call that ends in an error, the peer's \<^verbatim>\<open>sharedKey\<close> and \<^verbatim>\<open>sentPublic\<close> are as before,
  the states of the other peers, the outbox, the pending buffer, the threads and the
  status are as before, and the key pair is as before when there was one; when there was
  none, the pair that \<^verbatim>\<open>ensureDHState\<close> generated before the import is kept.
\<close>

theorem failed_key_agreement_state:
  "(importPublicKey env theirPublic = None \<longrightarrow>
      fst (deriveSharedSecret env f theirPublic c) = Inl DataError) \<and>
   fst (handleDhPayload env (f, theirPublic) c) = fst (deriveSharedSecret env f theirPublic c) \<and>
   (\<forall>e. fst (deriveSharedSecret env f theirPublic c) = Inl e \<longrightarrow>
      sharedKey (state_or_empty (snd (deriveSharedSecret env f theirPublic c)) f) =
        sharedKey (state_or_empty c f) \<and>
      sentPublic (state_or_empty (snd (deriveSharedSecret env f theirPublic c)) f) =
        sentPublic (state_or_empty c f) \<and>
      keyPair (state_or_empty (snd (deriveSharedSecret env f theirPublic c)) f) =
        (case keyPair (state_or_empty c f) of
           None \<Rightarrow> Some (createKeyPair env (entropy c)) | Some kp \<Rightarrow> Some kp) \<and>
      (\<forall>g. g \<noteq> f \<longrightarrow>
         sharedKeys (snd (deriveSharedSecret env f theirPublic c)) g = sharedKeys c g) \<and>
      outbox (snd (deriveSharedSecret env f theirPublic c)) = outbox c \<and>
      pendingMessages (snd (deriveSharedSecret env f theirPublic c)) = pendingMessages c \<and>
      threads (snd (deriveSharedSecret env f theirPublic c)) = threads c \<and>
      status (snd (deriveSharedSecret env f theirPublic c)) = status c)"
proof -
  have fail: "snd (deriveSharedSecret env f theirPublic c) = snd (ensureDHState env f c)"
    if "fst (deriveSharedSecret env f theirPublic c) = Inl e" for e
  proof (cases "importPublicKey env theirPublic")
    case None
    then show ?thesis by (simp add: deriveSharedSecret_def Let_def split_def)
  next
    case imported: (Some imported)
    show ?thesis
    proof (cases "keyPair (fst (ensureDHState env f c))")
      case None
      then show ?thesis using imported by (simp add: deriveSharedSecret_def Let_def split_def)
    next
      case kp: (Some kp)
      show ?thesis
      proof (cases "deriveSharedKey env (privateKey kp) imported")
        case None
        then show ?thesis using imported kp
          by (simp add: deriveSharedSecret_def Let_def split_def)
      next
        case (Some key)
        then have "fst (deriveSharedSecret env f theirPublic c) = Inr ()"
          using imported kp by (simp add: deriveSharedSecret_def Let_def split_def)
        then show ?thesis using that by simp
      qed
    qed
  qed
  have st: "state_or_empty (snd (ensureDHState env f c)) f = fst (ensureDHState env f c)"
    by (simp add: state_or_empty_def ensureDHState_state)
  have a: "importPublicKey env theirPublic = None \<longrightarrow>
      fst (deriveSharedSecret env f theirPublic c) = Inl DataError"
    by (simp add: deriveSharedSecret_def Let_def split_def)
  have b: "fst (handleDhPayload env (f, theirPublic) c) = fst (deriveSharedSecret env f theirPublic c)"
    by (simp add: handleDhPayload_def)
  show ?thesis
    using a b by (auto simp: fail st ensureDHState_state ensureDHState_frame)
qed

theorem failed_key_agreement_state_witness:
  "importPublicKey example_browser JUndefined = None \<and>
   fst (handleDhPayload example_browser (bob, JUndefined)
          (handleSendMessage example_browser example_client)) = Inl DataError \<and>
   state_or_empty (snd (deriveSharedSecret example_browser bob JUndefined
          (handleSendMessage example_browser example_client))) bob =
     \<lparr>keyPair = Some \<lparr>publicKey = CryptoKey 0, privateKey = CryptoKey 1\<rparr>,
      sharedKey = None, sentPublic = True\<rparr> \<and>
   outbox (snd (deriveSharedSecret example_browser bob JUndefined
          (handleSendMessage example_browser example_client))) = [DhPublic bob (JString ''jwk'')]"
proof -
  let ?c = "handleSendMessage example_browser example_client"
  have imp: "importPublicKey example_browser JUndefined = None"
    by (simp add: importPublicKey_def example_browser_def)
  have before: "state_or_empty ?c bob =
      \<lparr>keyPair = Some \<lparr>publicKey = CryptoKey 0, privateKey = CryptoKey 1\<rparr>,
       sharedKey = None, sentPublic = True\<rparr>"
    "outbox ?c = [DhPublic bob (JString ''jwk'')]"
    unfolding example_send by (simp_all add: state_or_empty_def)
  note t = failed_key_agreement_state [of example_browser JUndefined bob ?c]
  have err: "fst (deriveSharedSecret example_browser bob JUndefined ?c) = Inl DataError"
    using t imp by blast
  have "sharedKey (state_or_empty (snd (deriveSharedSecret example_browser bob JUndefined ?c)) bob) = None"
    "sentPublic (state_or_empty (snd (deriveSharedSecret example_browser bob JUndefined ?c)) bob)"
    "keyPair (state_or_empty (snd (deriveSharedSecret example_browser bob JUndefined ?c)) bob) =
       Some \<lparr>publicKey = CryptoKey 0, privateKey = CryptoKey 1\<rparr>"
    "outbox (snd (deriveSharedSecret example_browser bob JUndefined ?c)) = [DhPublic bob (JString ''jwk'')]"
    using t err before by simp_all
  then show ?thesis using imp err t by (simp add: dh_state.equality)
qed

text \<open>
  Counterexample to C7 as the specification states it, where the peer had no state yet:
  the failed call leaves a state with a freshly generated key pair behind.
\<close>

theorem failed_key_agreement_counterexample:
  "importPublicKey example_browser JUndefined = None \<and>
   fst (deriveSharedSecret example_browser bob JUndefined example_client) = Inl DataError \<and>
   sharedKeys example_client bob = None \<and>
   sharedKeys (snd (deriveSharedSecret example_browser bob JUndefined example_client)) bob =
     Some \<lparr>keyPair = Some \<lparr>publicKey = CryptoKey 0, privateKey = CryptoKey 1\<rparr>,
           sharedKey = None, sentPublic = False\<rparr>"
  unfolding example_failed_import
  by (simp add: importPublicKey_def example_browser_def example_client_def)

end
